theory Spec2Isabelle
  imports Main "HOL-Library.Word"
begin

section \<open>Failures\<close>

text \<open>
  What can be thrown: \<^verbatim>\<open>bad_slot\<close> and \<^verbatim>\<open>bad_weak_ptr\<close>, which the emission catches
  (the second is also what \<^verbatim>\<open>shared_from_this()\<close> throws on an object no shared pointer
  owns), any other exception of a slot body, and the dereference of a null slot pointer.
\<close>

datatype failure = bad_slot | bad_weak_ptr | other_exception | null_pointer

section \<open>Vector utilities (sywu/wrap/vector.hpp)\<close>

text \<open>
  \<^verbatim>\<open>std::remove\<close> compacts the elements different from the value to the front, keeping
  their order; \<^verbatim>\<open>erase\<close> then cuts the tail off. \<^verbatim>\<open>erase_first\<close> finds the first
  occurrence and erases that one element only. \<^verbatim>\<open>erase_if\<close> is the predicate form.
\<close>

fun std_remove :: "'a list \<Rightarrow> 'a \<Rightarrow> 'a list" where
  "std_remove [] v = []"
| "std_remove (x # xs) v = (if x = v then std_remove xs v else x # std_remove xs v)"

definition erase :: "'a list \<Rightarrow> 'a \<Rightarrow> 'a list" where
  "erase vec v = std_remove vec v"

fun erase_first :: "'a list \<Rightarrow> 'a \<Rightarrow> 'a list" where
  "erase_first [] v = []"
| "erase_first (x # xs) v = (if x = v then xs else x # erase_first xs v)"

fun std_remove_if :: "'a list \<Rightarrow> ('a \<Rightarrow> bool) \<Rightarrow> 'a list" where
  "std_remove_if [] p = []"
| "std_remove_if (x # xs) p = (if p x then std_remove_if xs p else x # std_remove_if xs p)"

definition erase_if :: "'a list \<Rightarrow> ('a \<Rightarrow> bool) \<Rightarrow> 'a list" where
  "erase_if vec p = std_remove_if vec p"

section \<open>The sywu generation: Trackable, Tracker, Slot (sywu/connection.hpp)\<close>

type_synonym slot_id = nat
type_synonym obj_id = nat

text \<open>
  \<^verbatim>\<open>struct Tracker\<close> is only forward-declared. A tracker is bound to a lifetime
  source; the one whose code is present is \<^verbatim>\<open>Trackable\<close>. Modelled from the spec: the
  pointer-backed kinds (shared or weak pointer) are valid while the referenced object is
  alive, keep no count, and have nothing to detach.
\<close>

datatype tracker = TrackableTracker obj_id | PointerTracker obj_id

text \<open>
  The objects of the sywu generation: per \<^verbatim>\<open>Trackable\<close> its \<^verbatim>\<open>m_slots\<close> and
  \<^verbatim>\<open>m_refCount\<close> (a \<^verbatim>\<open>std::atomic<int>\<close>, so a 32-bit two's complement value whose
  increments wrap), per \<^verbatim>\<open>Slot\<close> whether a shared pointer owns the object (what a weak
  pointer's \<^verbatim>\<open>lock()\<close> and the slot's \<^verbatim>\<open>shared_from_this()\<close> ask), its \<^verbatim>\<open>m_trackers\<close> and \<^verbatim>\<open>m_isEnabled\<close>. The slot
  variants (overriders of \<^verbatim>\<open>isValidOverride\<close> and \<^verbatim>\<open>disconnectOverride\<close>) are not in
  the sources: \<open>overrideCalls\<close> counts the calls of \<^verbatim>\<open>disconnectOverride\<close> a slot
  received, and \<open>isValidOverride\<close> is the answer of the variant.
\<close>

record sywu =
  trackable_slots :: "obj_id \<Rightarrow> slot_id list"
  trackable_refCount :: "obj_id \<Rightarrow> 32 word"
  object_alive :: "obj_id \<Rightarrow> bool"
  slot_exists :: "slot_id \<Rightarrow> bool"
  slot_trackers :: "slot_id \<Rightarrow> tracker list"
  slot_isEnabled :: "slot_id \<Rightarrow> bool"
  isValidOverride :: "slot_id \<Rightarrow> bool"
  overrideCalls :: "slot_id \<Rightarrow> nat"

text \<open>\<^verbatim>\<open>Trackable::retain\<close>: \<^verbatim>\<open>++m_refCount; return m_refCount.load() > 0;\<close>\<close>

definition Trackable_retain :: "obj_id \<Rightarrow> sywu \<Rightarrow> bool \<times> sywu" where
  "Trackable_retain obj w =
     (let c = trackable_refCount w obj + 1
      in (0 <s c, w\<lparr>trackable_refCount := (trackable_refCount w)(obj := c)\<rparr>))"

text \<open>\<^verbatim>\<open>Trackable::release\<close>: \<^verbatim>\<open>--m_refCount; return (m_refCount <= 0);\<close>\<close>

definition Trackable_release :: "obj_id \<Rightarrow> sywu \<Rightarrow> bool \<times> sywu" where
  "Trackable_release obj w =
     (let c = trackable_refCount w obj - 1
      in (c \<le>s 0, w\<lparr>trackable_refCount := (trackable_refCount w)(obj := c)\<rparr>))"

text \<open>\<^verbatim>\<open>Trackable::attach\<close> and \<^verbatim>\<open>Trackable::detach\<close>.\<close>

definition Trackable_attach :: "obj_id \<Rightarrow> slot_id \<Rightarrow> sywu \<Rightarrow> sywu" where
  "Trackable_attach obj s w =
     w\<lparr>trackable_slots := (trackable_slots w)(obj := trackable_slots w obj @ [s])\<rparr>"

definition Trackable_detach :: "obj_id \<Rightarrow> slot_id \<Rightarrow> sywu \<Rightarrow> sywu" where
  "Trackable_detach obj s w =
     w\<lparr>trackable_slots := (trackable_slots w)(obj := erase_first (trackable_slots w obj) s)\<rparr>"

text \<open>The three entry points of a tracker, as \<^verbatim>\<open>Slot\<close> calls them.\<close>

fun Tracker_retain :: "tracker \<Rightarrow> sywu \<Rightarrow> bool \<times> sywu" where
  "Tracker_retain (TrackableTracker obj) w = Trackable_retain obj w"
| "Tracker_retain (PointerTracker obj) w = (object_alive w obj, w)"

fun Tracker_release :: "tracker \<Rightarrow> sywu \<Rightarrow> sywu" where
  "Tracker_release (TrackableTracker obj) w = snd (Trackable_release obj w)"
| "Tracker_release (PointerTracker obj) w = w"

fun Tracker_detach :: "tracker \<Rightarrow> slot_id \<Rightarrow> sywu \<Rightarrow> sywu" where
  "Tracker_detach (TrackableTracker obj) s w = Trackable_detach obj s w"
| "Tracker_detach (PointerTracker obj) s w = w"

text \<open>
  \<^verbatim>\<open>utils::find_if(m_trackers, [](auto& tracker) { return !tracker->retain(...); })\<close>:
  the predicate retains, so the search changes the state; it stops at the first tracker
  whose \<^verbatim>\<open>retain\<close> answers false and returns its position (\<open>None\<close> is \<^verbatim>\<open>end()\<close>).
\<close>

fun find_if_not_retain :: "tracker list \<Rightarrow> nat \<Rightarrow> sywu \<Rightarrow> nat option \<times> sywu" where
  "find_if_not_retain [] i w = (None, w)"
| "find_if_not_retain (t # ts) i w =
     (case Tracker_retain t w of
        (ok, w') \<Rightarrow> if \<not> ok then (Some i, w') else find_if_not_retain ts (Suc i) w')"

text \<open>\<^verbatim>\<open>for_each\<close> with the \<^verbatim>\<open>release\<close> lambda, first to last.\<close>

definition for_each_release :: "tracker list \<Rightarrow> sywu \<Rightarrow> sywu" where
  "for_each_release ts w = fold Tracker_release ts w"

text \<open>\<^verbatim>\<open>Slot::isValid\<close>.\<close>

definition isValid :: "slot_id \<Rightarrow> sywu \<Rightarrow> bool \<times> sywu" where
  "isValid s w =
     (case find_if_not_retain (slot_trackers w s) 0 w of
        (Some it, w') \<Rightarrow> (False, for_each_release (take it (slot_trackers w s)) w')
      | (None, w') \<Rightarrow> (isValidOverride w' s, for_each_release (slot_trackers w s) w'))"

text \<open>Concrete states for the closed theorems: nothing attached, every count zero.\<close>

definition sywu0 :: sywu where
  "sywu0 = \<lparr>trackable_slots = (\<lambda>_. []), trackable_refCount = (\<lambda>_. 0),
     object_alive = (\<lambda>_. True), slot_exists = (\<lambda>_. True), slot_trackers = (\<lambda>_. []), slot_isEnabled = (\<lambda>_. True),
     isValidOverride = (\<lambda>_. True), overrideCalls = (\<lambda>_. 0)\<rparr>"

text \<open>
  Slot 0 tracks the Trackable 0, on which the public \<^verbatim>\<open>release()\<close> was called once
  with no \<^verbatim>\<open>retain()\<close> before: its count is \<open>-1\<close>.
\<close>

definition sywu_released :: sywu where
  "sywu_released = sywu0\<lparr>slot_trackers := (\<lambda>_. [])(0 := [TrackableTracker 0]),
     trackable_refCount := (\<lambda>_. 0)(0 := - 1)\<rparr>"

subsection \<open>Slot::disconnect and Trackable teardown\<close>

text \<open>
  \<^verbatim>\<open>Slot::disconnect\<close> called through a shared pointer, \<^verbatim>\<open>slot->disconnect()\<close>, as
  \<^verbatim>\<open>Trackable::disconnectSlots\<close> and \<^verbatim>\<open>Connection::disconnect\<close> call it: the slot is
  owned, so \<^verbatim>\<open>shared_from_this()\<close> gives the pointer each tracker is handed. Every
  tracker detaches the slot (first to last), the tracker list is cleared, and the
  variant's \<^verbatim>\<open>disconnectOverride\<close> is called. The slot's mutex, taken for the whole
  body, is not part of the state: the model is sequential.
\<close>

definition for_each_detach :: "tracker list \<Rightarrow> slot_id \<Rightarrow> sywu \<Rightarrow> sywu" where
  "for_each_detach ts s w = fold (\<lambda>t. Tracker_detach t s) ts w"

definition disconnectOverride :: "slot_id \<Rightarrow> sywu \<Rightarrow> sywu" where
  "disconnectOverride s w = w\<lparr>overrideCalls := (overrideCalls w)(s := Suc (overrideCalls w s))\<rparr>"

definition Slot_disconnect :: "slot_id \<Rightarrow> sywu \<Rightarrow> sywu" where
  "Slot_disconnect s w =
     (let w1 = for_each_detach (slot_trackers w s) s w;
          w2 = w1\<lparr>slot_trackers := (slot_trackers w1)(s := [])\<rparr>
      in disconnectOverride s w2)"

text \<open>
  \<^verbatim>\<open>Slot::disconnect\<close> on any slot object. The detacher evaluates
  \<^verbatim>\<open>shared_from_this()\<close> for each tracker; on a slot that no shared pointer owns this
  throws \<^verbatim>\<open>bad_weak_ptr\<close> at the first tracker, before anything is detached. A slot
  without trackers never asks.
\<close>

definition Slot_disconnect_any :: "slot_id \<Rightarrow> sywu \<Rightarrow> failure + sywu" where
  "Slot_disconnect_any s w =
     (if slot_trackers w s \<noteq> [] \<and> \<not> slot_exists w s then Inl bad_weak_ptr
      else Inr (Slot_disconnect s w))"

lemma length_erase_first: "length (erase_first xs v) \<le> length xs"
  by (induction xs) auto

lemma Tracker_detach_length:
  "length (trackable_slots (Tracker_detach t s w) obj) \<le> length (trackable_slots w obj)"
  by (cases t) (simp_all add: Trackable_detach_def length_erase_first)

lemma for_each_detach_length:
  "length (trackable_slots (for_each_detach ts s w) obj) \<le> length (trackable_slots w obj)"
proof (induction ts arbitrary: w)
  case Nil
  show ?case by (simp add: for_each_detach_def)
next
  case (Cons t ts)
  have "length (trackable_slots (for_each_detach ts s (Tracker_detach t s w)) obj)
        \<le> length (trackable_slots (Tracker_detach t s w) obj)"
    by (rule Cons.IH)
  also have "\<dots> \<le> length (trackable_slots w obj)"
    by (rule Tracker_detach_length)
  finally show ?case by (simp add: for_each_detach_def)
qed

lemma Slot_disconnect_length:
  "length (trackable_slots (Slot_disconnect s w) obj) \<le> length (trackable_slots w obj)"
  by (simp add: Slot_disconnect_def Let_def disconnectOverride_def for_each_detach_length)

text \<open>
  \<^verbatim>\<open>Trackable::disconnectSlots\<close>: while \<^verbatim>\<open>m_slots\<close> is not empty, take the last slot,
  pop it, and disconnect it. The disconnect calls back into \<^verbatim>\<open>Trackable::detach\<close> of
  this very object, which can only shorten the list: the loop ends.
\<close>

function disconnectSlots :: "obj_id \<Rightarrow> sywu \<Rightarrow> sywu" where
  "disconnectSlots obj w =
     (if trackable_slots w obj = [] then w
      else
        let slot = last (trackable_slots w obj);
            w1 = w\<lparr>trackable_slots := (trackable_slots w)(obj := butlast (trackable_slots w obj))\<rparr>
        in disconnectSlots obj (Slot_disconnect slot w1))"
  by pat_completeness auto
termination
proof (relation "measure (\<lambda>(obj, w). length (trackable_slots w obj))")
  show "wf (measure (\<lambda>(obj, w). length (trackable_slots w obj)))" by simp
next
  fix obj :: obj_id and w :: sywu and x xa
  assume ne: "trackable_slots w obj \<noteq> []"
    and x: "x = last (trackable_slots w obj)"
    and xa: "xa = w\<lparr>trackable_slots := (trackable_slots w)(obj := butlast (trackable_slots w obj))\<rparr>"
  have "length (trackable_slots (Slot_disconnect x xa) obj) \<le> length (trackable_slots xa obj)"
    by (rule Slot_disconnect_length)
  also have "\<dots> < length (trackable_slots w obj)"
    using ne xa by simp
  finally show "((obj, Slot_disconnect x xa), (obj, w)) \<in> measure (\<lambda>(obj, w). length (trackable_slots w obj))"
    by simp
qed

text \<open>
  \<^verbatim>\<open>Trackable::~Trackable\<close>: the destructor body runs \<^verbatim>\<open>disconnectSlots\<close>; only after
  it has returned are the members destroyed and the storage reclaimed.
\<close>

definition Trackable_destroy :: "obj_id \<Rightarrow> sywu \<Rightarrow> sywu" where
  "Trackable_destroy obj w =
     (let w1 = disconnectSlots obj w
      in w1\<lparr>object_alive := (object_alive w1)(obj := False)\<rparr>)"

text \<open>Trackable 7 with the slots 1 and 2 attached, each tracking it.\<close>

definition sywu_tracked :: sywu where
  "sywu_tracked = sywu0\<lparr>trackable_slots := (\<lambda>_. [])(7 := [1, 2]),
     slot_trackers := (\<lambda>_. [])(1 := [TrackableTracker 7], 2 := [TrackableTracker 7])\<rparr>"

subsection \<open>sywu::Connection\<close>

text \<open>
  \<^verbatim>\<open>sywu::Connection\<close>: the sender signal (\<open>None\<close>: \<^verbatim>\<open>nullptr\<close>) and a weak pointer
  to the slot (\<open>None\<close>: empty).
\<close>

record sywu_connection =
  m_sender :: "nat option"
  m_slot :: "slot_id option"

definition weak_lock :: "sywu_connection \<Rightarrow> sywu \<Rightarrow> slot_id option" where
  "weak_lock c w =
     (case m_slot c of None \<Rightarrow> None | Some s \<Rightarrow> if slot_exists w s then Some s else None)"

text \<open>
  \<^verbatim>\<open>SYWU_ASSERT\<close> comes from \<^verbatim>\<open>config.hpp\<close>, which is not in the sources. Modelled
  from the spec: a failed invariant assertion is "fatal" and "should abort rather than
  silently continue".
\<close>

datatype abort = assertion_failed

text \<open>
  \<^verbatim>\<open>sywu::Connection::disconnect\<close>: lock the weak pointer, assert the slot, disconnect
  it, then \<^verbatim>\<open>m_slot.reset()\<close> and \<^verbatim>\<open>m_sender = nullptr\<close>.
\<close>

definition Connection_disconnect ::
  "sywu_connection \<Rightarrow> sywu \<Rightarrow> abort + sywu_connection \<times> sywu" where
  "Connection_disconnect c w =
     (case weak_lock c w of
        None \<Rightarrow> Inl assertion_failed
      | Some slot \<Rightarrow> Inr (c\<lparr>m_slot := None, m_sender := None\<rparr>, Slot_disconnect slot w))"

text \<open>\<^verbatim>\<open>sywu::Connection::operator bool\<close>; the validity check's state change is dropped.\<close>

definition sywu_Connection_bool :: "sywu_connection \<Rightarrow> sywu \<Rightarrow> bool" where
  "sywu_Connection_bool c w =
     (case weak_lock c w of
        None \<Rightarrow> False
      | Some slot \<Rightarrow> if m_sender c = None then False else fst (isValid slot w))"

section \<open>The core generation: Slot, Connection, SignalConcept\<close>

type_synonym fn_id = nat

text \<open>
  The slot variants of \<^verbatim>\<open>signal_concept_impl.hpp\<close>: \<^verbatim>\<open>FunctionSlot\<close> holds a
  callable, \<^verbatim>\<open>MethodSlot\<close> a weak pointer to its target and a member function,
  \<^verbatim>\<open>SignalSlot\<close> a pointer to the receiver signal.
\<close>

datatype slot_variant = FunctionSlot fn_id | MethodSlot obj_id fn_id | SignalSlot obj_id

text \<open>
  \<^verbatim>\<open>comp::core::Slot\<close> (\<^verbatim>\<open>m_trackers\<close>, \<^verbatim>\<open>m_isConnected\<close>) with the enabled flag of
  \<^verbatim>\<open>sywu::Slot\<close> (\<^verbatim>\<open>m_isEnabled\<close>). The implementations of \<^verbatim>\<open>TrackerInterface\<close> are
  not in the sources; modelled from the spec: a tracker is bound to an object and is
  valid while that object is alive, and \<^verbatim>\<open>untrack\<close> changes nothing of the signal.
\<close>

record slot =
  m_trackers :: "obj_id list"
  m_isConnected :: bool
  m_isEnabled :: bool
  variant :: slot_variant

text \<open>
  The state an emission works on: the signal (\<^verbatim>\<open>m_slots\<close>, a vector of shared
  pointers, \<open>None\<close> the null pointer; \<^verbatim>\<open>m_emitGuard\<close>, true when locked; the blocked
  flag behind \<^verbatim>\<open>isBlocked()\<close>), the slot objects by identity, which of them still
  exist (what a weak pointer's \<^verbatim>\<open>lock()\<close> asks), the tracked and target objects that
  are alive, the thread-local \<^verbatim>\<open>ActiveConnection::connection\<close>, and the state of the
  user's code.
\<close>

record 'u world =
  m_slots :: "slot_id option list"
  m_emitGuard :: bool
  m_blocked :: bool
  slot_store :: "slot_id \<Rightarrow> slot"
  slot_alive :: "slot_id \<Rightarrow> bool"
  alive :: "obj_id \<Rightarrow> bool"
  activeConnection :: "slot_id option"
  user :: 'u

text \<open>
  Modelled from the spec: \<^verbatim>\<open>comp::core::Slot::isConnected\<close> is declared
  (\<^verbatim>\<open>core/signal.hpp\<close>, line 39) and its body is not in the sources. It "returns false
  if explicitly disconnected OR any attached tracker reports invalidity".
\<close>

definition isConnected :: "slot_id \<Rightarrow> 'u world \<Rightarrow> bool" where
  "isConnected s w =
     (m_isConnected (slot_store w s) \<and> list_all (alive w) (m_trackers (slot_store w s)))"

text \<open>
  Modelled from the spec: \<^verbatim>\<open>comp::core::Slot::disconnect\<close> is declared
  (\<^verbatim>\<open>core/signal.hpp\<close>, line 42) and its body is not in the sources. It is "idempotent;
  under the slot's own lock, detaches every tracker ... and marks the slot disconnected;
  calls a type-specific override". The override is the empty default
  \<^verbatim>\<open>disconnectOverride() {}\<close>, which no variant of \<^verbatim>\<open>signal_concept_impl.hpp\<close>
  replaces.
\<close>

definition core_Slot_disconnect :: "slot_id \<Rightarrow> 'u world \<Rightarrow> 'u world" where
  "core_Slot_disconnect s w =
     (if \<not> m_isConnected (slot_store w s) then w
      else w\<lparr>slot_store := (slot_store w)
             (s := (slot_store w s)\<lparr>m_trackers := [], m_isConnected := False\<rparr>)\<rparr>)"

text \<open>
  \<^verbatim>\<open>comp::core::Signal::Connection\<close>: a weak pointer to a slot (\<open>None\<close>: default
  constructed). \<^verbatim>\<open>get\<close> locks it; \<^verbatim>\<open>disconnect\<close> returns when the lock fails and
  calls the slot's \<^verbatim>\<open>disconnect\<close> otherwise, and does not touch \<^verbatim>\<open>m_slot\<close>;
  \<^verbatim>\<open>operator bool\<close> is \<^verbatim>\<open>slot && slot->isConnected()\<close>.
\<close>

type_synonym connection = "slot_id option"

definition Connection_get :: "connection \<Rightarrow> 'u world \<Rightarrow> slot_id option" where
  "Connection_get c w =
     (case c of None \<Rightarrow> None | Some s \<Rightarrow> if slot_alive w s then Some s else None)"

definition core_Connection_disconnect :: "connection \<Rightarrow> 'u world \<Rightarrow> connection \<times> 'u world" where
  "core_Connection_disconnect c w =
     (case Connection_get c w of
        None \<Rightarrow> (c, w)
      | Some s \<Rightarrow> (c, core_Slot_disconnect s w))"

definition Connection_bool :: "connection \<Rightarrow> 'u world \<Rightarrow> bool" where
  "Connection_bool c w =
     (case Connection_get c w of None \<Rightarrow> False | Some s \<Rightarrow> isConnected s w)"

text \<open>
  \<^verbatim>\<open>SignalConcept::disconnect(Connection connection)\<close>: the connection is a copy;
  \<^verbatim>\<open>get\<close>, then \<^verbatim>\<open>connection.disconnect()\<close>, then \<^verbatim>\<open>erase(m_slots, slot)\<close>.
\<close>

definition Signal_disconnect :: "connection \<Rightarrow> 'u world \<Rightarrow> 'u world" where
  "Signal_disconnect c w =
     (let slot = Connection_get c w;
          w1 = snd (core_Connection_disconnect c w)
      in w1\<lparr>m_slots := erase (m_slots w1) slot\<rparr>)"

text \<open>
  \<^verbatim>\<open>SignalConcept::addSlot\<close>, behind every \<^verbatim>\<open>connect\<close>: the new slot object is pushed
  to the back of \<^verbatim>\<open>m_slots\<close> and a connection to it is returned. The assertion on
  the dynamic cast holds for every slot a \<^verbatim>\<open>connect\<close> overload makes, so it has no
  failing branch here.
\<close>

definition addSlot :: "slot_id \<Rightarrow> slot \<Rightarrow> 'u world \<Rightarrow> connection \<times> 'u world" where
  "addSlot s sl w =
     (Some s, w\<lparr>m_slots := m_slots w @ [Some s],
                slot_store := (slot_store w)(s := sl),
                slot_alive := (slot_alive w)(s := True)\<rparr>)"

text \<open>
  \<^verbatim>\<open>SignalConcept::~SignalConcept\<close>: while \<^verbatim>\<open>m_slots\<close> is not empty, take the last
  slot, pop it, disconnect it. Dereferencing a null pointer is the failure
  \<open>null_pointer\<close>.
\<close>

function Signal_destroy :: "'u world \<Rightarrow> failure + 'u world" where
  "Signal_destroy w =
     (if m_slots w = [] then Inr w
      else
        let slot = last (m_slots w);
            w1 = w\<lparr>m_slots := butlast (m_slots w)\<rparr>
        in case slot of
             None \<Rightarrow> Inl null_pointer
           | Some s \<Rightarrow> Signal_destroy (core_Slot_disconnect s w1))"
  by pat_completeness auto
termination
  by (relation "measure (\<lambda>w. length (m_slots w))") (auto simp: core_Slot_disconnect_def)

subsection \<open>Emission\<close>

text \<open>
  The code a slot wraps is the user's: \<^verbatim>\<open>invoke(m_function, ...)\<close> runs a callable, a
  member function on its locked target, or the receiver signal. It is a parameter of the
  model: a function from the callee and the arguments to a state change, with or without
  an exception. It can do to the state whatever the public interface allows (connect,
  disconnect, emit again, destroy an object).

  The arguments are handed on by \<^verbatim>\<open>forward<Arguments>(arguments)...\<close>: for a signal of
  value types the slot gets rvalue references to the parameters of \<^verbatim>\<open>operator()\<close>
  themselves, and a callable that takes a parameter by value moves out of them. So the
  user's code also answers what it left in the arguments, and that is what the next slot
  of the same emission is handed.
\<close>

datatype callee = Function fn_id | Method obj_id fn_id | Receiver obj_id

type_synonym ('a, 'u) invoke =
  "callee \<Rightarrow> 'a \<Rightarrow> 'u world \<Rightarrow> failure option \<times> 'a \<times> 'u world"

text \<open>
  \<^verbatim>\<open>activateOverride\<close> of the three variants. The method slot locks its weak target
  first and throws \<^verbatim>\<open>bad_slot\<close> when it has expired, the arguments untouched. The
  boolean tells whether the user's code was reached; the third component is what the
  arguments hold afterwards.
\<close>

definition activateOverride ::
  "('a, 'u) invoke \<Rightarrow> slot_id \<Rightarrow> 'a \<Rightarrow> 'u world \<Rightarrow>
     failure option \<times> bool \<times> 'a \<times> 'u world" where
  "activateOverride invoke s a w =
     (case variant (slot_store w s) of
        FunctionSlot f \<Rightarrow>
          (case invoke (Function f) a w of (r, a', w') \<Rightarrow> (r, True, a', w'))
      | MethodSlot target f \<Rightarrow>
          if \<not> alive w target then (Some bad_slot, False, a, w)
          else (case invoke (Method target f) a w of (r, a', w') \<Rightarrow> (r, True, a', w'))
      | SignalSlot receiver \<Rightarrow>
          (case invoke (Receiver receiver) a w of (r, a', w') \<Rightarrow> (r, True, a', w')))"

text \<open>
  Modelled from the spec: \<^verbatim>\<open>SlotImpl::activate\<close> is declared (\<^verbatim>\<open>connection.hpp\<close>,
  line 106) and its body is not in the sources. The enabled flag "gates emission
  without destroying the slot", and the variants' \<^verbatim>\<open>activateOverride\<close> "performs the
  real call": a disabled slot returns without calling it.
\<close>

definition activate ::
  "('a, 'u) invoke \<Rightarrow> slot_id \<Rightarrow> 'a \<Rightarrow> 'u world \<Rightarrow>
     failure option \<times> bool \<times> 'a \<times> 'u world" where
  "activate invoke s a w =
     (if \<not> m_isEnabled (slot_store w s) then (None, False, a, w)
      else activateOverride invoke s a w)"

text \<open>
  The loop of \<^verbatim>\<open>SignalConcept::operator()\<close> over the snapshot, with the running
  \<^verbatim>\<open>count\<close> and the arguments as the slots so far have left them; \<open>calls\<close> lists the
  slots whose user code was reached, each with the arguments it was handed. Per slot:
  skip it when it is no longer connected; otherwise set the active connection
  (\<^verbatim>\<open>ConnectionSwapper\<close>, restored when the scope is left either way), activate, and
  count. \<^verbatim>\<open>bad_weak_ptr\<close> and \<^verbatim>\<open>bad_slot\<close> are caught: the signal disconnects
  \<^verbatim>\<open>Connection(slot)\<close> and the loop goes on. Anything else leaves the loop. The
  slot's mutex is not part of the state.
\<close>

fun emit_loop ::
  "('a, 'u) invoke \<Rightarrow> 'a \<Rightarrow> slot_id option list \<Rightarrow> nat \<Rightarrow> (slot_id \<times> 'a) list \<Rightarrow> 'u world \<Rightarrow>
     (failure + nat) \<times> (slot_id \<times> 'a) list \<times> 'u world" where
  "emit_loop invoke a [] count calls w = (Inr count, calls, w)"
| "emit_loop invoke a (None # slots) count calls w = (Inl null_pointer, calls, w)"
| "emit_loop invoke a (Some s # slots) count calls w =
     (if \<not> isConnected s w then emit_loop invoke a slots count calls w
      else
        let previousConnection = activeConnection w;
            w1 = w\<lparr>activeConnection := Some s\<rparr>
        in (case activate invoke s a w1 of
             (r, called, a', w2) \<Rightarrow>
               (let w3 = w2\<lparr>activeConnection := previousConnection\<rparr>;
                    calls' = (if called then calls @ [(s, a)] else calls)
                in (case r of
                      None \<Rightarrow> emit_loop invoke a' slots (count + 1) calls' w3
                    | Some bad_weak_ptr \<Rightarrow>
                        emit_loop invoke a' slots count calls' (Signal_disconnect (Some s) w3)
                    | Some bad_slot \<Rightarrow>
                        emit_loop invoke a' slots count calls' (Signal_disconnect (Some s) w3)
                    | Some e \<Rightarrow> (Inl e, calls', w3)))))"

text \<open>
  \<^verbatim>\<open>SignalConcept::operator()\<close>: return \<^verbatim>\<open>0u\<close> when the signal is blocked or the emit
  guard is locked; otherwise lock the guard, prune \<^verbatim>\<open>m_slots\<close> of the null and the
  not connected, copy it, run the loop on the copy, and unlock the guard on the way out
  (\<^verbatim>\<open>lock_guard\<close>, also when an exception passes).
\<close>

definition prune :: "'u world \<Rightarrow> 'u world" where
  "prune w = w\<lparr>m_slots :=
     erase_if (m_slots w) (\<lambda>slot. case slot of None \<Rightarrow> True | Some s \<Rightarrow> \<not> isConnected s w)\<rparr>"

definition operator_call ::
  "('a, 'u) invoke \<Rightarrow> 'a \<Rightarrow> 'u world \<Rightarrow> (failure + nat) \<times> (slot_id \<times> 'a) list \<times> 'u world" where
  "operator_call invoke a w =
     (if m_blocked w \<or> m_emitGuard w then (Inr 0, [], w)
      else
        let w1 = w\<lparr>m_emitGuard := True\<rparr>;
            w2 = prune w1;
            slots = m_slots w2
        in case emit_loop invoke a slots 0 [] w2 of
             (r, calls, w3) \<Rightarrow> (r, calls, w3\<lparr>m_emitGuard := False\<rparr>))"

subsection \<open>Connecting\<close>

text \<open>
  A slot as its constructor leaves it (\<^verbatim>\<open>m_isConnected = true\<close>,
  \<^verbatim>\<open>m_isEnabled = true\<close>, no tracker), and the three \<^verbatim>\<open>connect\<close> overloads: each
  makes the slot of its variant and adds it. The method overload binds the receiver
  first; \<^verbatim>\<open>bind\<close> is not in the sources and is modelled from the spec as adding one
  tracker on the receiver. The new slot's identity \<open>s\<close> is the caller's choice of a
  fresh one.
\<close>

definition new_slot :: "slot_variant \<Rightarrow> slot" where
  "new_slot v = \<lparr>m_trackers = [], m_isConnected = True, m_isEnabled = True, variant = v\<rparr>"

definition connect_function :: "fn_id \<Rightarrow> slot_id \<Rightarrow> 'u world \<Rightarrow> connection \<times> 'u world" where
  "connect_function f s w = addSlot s (new_slot (FunctionSlot f)) w"

definition connect_method :: "obj_id \<Rightarrow> fn_id \<Rightarrow> slot_id \<Rightarrow> 'u world \<Rightarrow> connection \<times> 'u world" where
  "connect_method receiver f s w =
     addSlot s ((new_slot (MethodSlot receiver f))\<lparr>m_trackers := [receiver]\<rparr>) w"

text \<open>A signal with no slot, as constructed, and the user's state \<open>u\<close>.\<close>

definition empty_world :: "'u \<Rightarrow> 'u world" where
  "empty_world u = \<lparr>m_slots = [], m_emitGuard = False, m_blocked = False,
     slot_store = (\<lambda>_. new_slot (FunctionSlot 0)), slot_alive = (\<lambda>_. False),
     alive = (\<lambda>_. True), activeConnection = None, user = u\<rparr>"

text \<open>
  The scenario \<^verbatim>\<open>Sum(int, int)\<close>: the user's state is a counter; function 1 adds the
  first argument to it, function 2 the second; integers are copied, so the arguments stay
  as they are.
\<close>

definition sum_invoke :: "(int \<times> int, int) invoke" where
  "sum_invoke c a w =
     (case c of
        Function f \<Rightarrow> (None, a, w\<lparr>user := user w + (if f = 1 then fst a else snd a)\<rparr>)
      | _ \<Rightarrow> (None, a, w))"

definition sum_world :: "int world" where
  "sum_world = snd (connect_function 2 2 (snd (connect_function 1 1 (empty_world 0))))"

subsection \<open>Notions the statements use\<close>

text \<open>The slots of \<^verbatim>\<open>m_slots\<close> that are connected, in registration order.\<close>

definition connected_slots :: "'u world \<Rightarrow> slot_id list" where
  "connected_slots w = [s. Some s \<leftarrow> m_slots w, isConnected s w]"

text \<open>A method slot whose target has expired.\<close>

definition stale :: "slot_id \<Rightarrow> 'u world \<Rightarrow> bool" where
  "stale s w =
     (case variant (slot_store w s) of
        MethodSlot target f \<Rightarrow> \<not> alive w target
      | _ \<Rightarrow> False)"

text \<open>
  User code that raises nothing and leaves the slot objects and the tracked objects as
  they are.
\<close>

definition leaves_slots :: "('a, 'u) invoke \<Rightarrow> bool" where
  "leaves_slots invoke =
     (\<forall>c x w. fst (invoke c x w) = None \<and>
        slot_store (snd (snd (invoke c x w))) = slot_store w \<and>
        slot_alive (snd (snd (invoke c x w))) = slot_alive w \<and>
        alive (snd (snd (invoke c x w))) = alive w)"

text \<open>
  User code that leaves the arguments as it got them: callables that take them by
  const reference, or by value when the value is copied rather than moved (integers).
\<close>

definition keeps_arguments :: "('a, 'u) invoke \<Rightarrow> bool" where
  "keeps_arguments invoke = (\<forall>c x w. fst (snd (invoke c x w)) = x)"

text \<open>The vector holds shared pointers: every slot of \<^verbatim>\<open>m_slots\<close> exists.\<close>

definition slots_exist :: "'u world \<Rightarrow> bool" where
  "slots_exist w = (\<forall>p \<in> set (m_slots w). case p of None \<Rightarrow> True | Some s \<Rightarrow> slot_alive w s)"

text \<open>
  User code has no access to the emit guard: whatever it does, the guard is as before.
\<close>

definition guard_kept :: "('a, 'u) invoke \<Rightarrow> bool" where
  "guard_kept invoke = (\<forall>c x w. m_emitGuard (snd (snd (invoke c x w))) = m_emitGuard w)"

text \<open>
  User code that, before anything else, emits the same signal again with the same
  arguments (a copy of them; the slots then wrapping \<open>inner\<close>), and goes on as \<open>outer\<close>, from the
  state the inner emission left, when that emission returned 0 and reached no slot;
  otherwise it raises.
\<close>

definition reentering :: "('a, 'u) invoke \<Rightarrow> ('a, 'u) invoke \<Rightarrow> ('a, 'u) invoke" where
  "reentering inner outer c x w =
     (case operator_call inner x w of
        (r, calls, w') \<Rightarrow>
          if r = Inr 0 \<and> calls = [] then outer c x w' else (Some other_exception, x, w'))"

text \<open>User code never makes the slot \<open>s\<close> connected again once it is not.\<close>

definition stays_disconnected :: "('a, 'u) invoke \<Rightarrow> slot_id \<Rightarrow> bool" where
  "stays_disconnected invoke s =
     (\<forall>c x w. \<not> isConnected s w \<longrightarrow> \<not> isConnected s (snd (snd (invoke c x w))))"

subsection \<open>Scenarios\<close>

text \<open>\<open>sum_world\<close> with its second slot disabled.\<close>

definition sum_world_disabled :: "int world" where
  "sum_world_disabled = sum_world\<lparr>slot_store :=
     (slot_store sum_world)(2 := (slot_store sum_world 2)\<lparr>m_isEnabled := False\<rparr>)\<rparr>"

text \<open>
  Three slots: the function slots 1 and 3 and, between them, the method slot 2 on the
  object 9, which has expired and on which the slot holds no tracker. The user's code
  counts its calls.
\<close>

definition count_invoke :: "(unit, nat) invoke" where
  "count_invoke c a w = (None, a, w\<lparr>user := Suc (user w)\<rparr>)"


text \<open>
  The slots 1, 2 and 3 on the functions 1, 2 and 3. Function 1 disconnects slot 2 through
  a connection to it and connects the new slot 4 on function 4; every function counts
  its call.
\<close>

definition busy_invoke :: "(unit, nat) invoke" where
  "busy_invoke c a w =
     (let w1 = w\<lparr>user := Suc (user w)\<rparr>
      in if c = Function 1
         then (None, a, snd (connect_function 4 4 (snd (core_Connection_disconnect (Some 2) w1))))
         else (None, a, w1))"

definition busy_world :: "nat world" where
  "busy_world =
     snd (connect_function 3 3 (snd (connect_function 2 2
       (snd (connect_function 1 1 (empty_world 0))))))"


definition busy_world_disconnected :: "nat world" where
  "busy_world_disconnected = core_Slot_disconnect 2 busy_world"

text \<open>
  A signal of one string argument with the function slots 1 and 2, whose callables take
  the string by value: each is move-constructed from the argument, which is left empty
  (as the standard libraries in use leave a moved-from string). The user's state lists
  the strings received.
\<close>

definition moving_invoke :: "(string, string list) invoke" where
  "moving_invoke c a w = (None, [], w\<lparr>user := user w @ [a]\<rparr>)"

definition string_world :: "string list world" where
  "string_world = snd (connect_function 2 2 (snd (connect_function 1 1 (empty_world []))))"

section \<open>Slot::isValid retains and releases\<close>

lemma release_retain: "Tracker_release t (snd (Tracker_retain t w)) = w"
  by (cases t) (simp_all add: Trackable_retain_def Trackable_release_def Let_def)

lemma release_commute:
  "Tracker_release a (Tracker_release b w) = Tracker_release b (Tracker_release a w)"
  by (cases a; cases b) (auto simp: Trackable_release_def Let_def fun_upd_twist)

lemma release_retain_commute:
  "Tracker_release a (snd (Tracker_retain b w)) = snd (Tracker_retain b (Tracker_release a w))"
  by (cases a; cases b)
    (auto simp: Trackable_release_def Trackable_retain_def Let_def fun_upd_twist)

lemma fold_release_commute:
  "fold Tracker_release ts (Tracker_release t w) = Tracker_release t (fold Tracker_release ts w)"
proof (induction ts arbitrary: w)
  case Nil
  show ?case by simp
next
  case (Cons a ts)
  have "fold Tracker_release (a # ts) (Tracker_release t w) =
        fold Tracker_release ts (Tracker_release t (Tracker_release a w))"
    by (simp add: release_commute [of a t])
  also have "\<dots> = Tracker_release t (fold Tracker_release ts (Tracker_release a w))"
    by (rule Cons.IH)
  finally show ?case by simp
qed

lemma find_if_none:
  "find_if_not_retain ts i w = (None, w') \<Longrightarrow> for_each_release ts w' = w"
proof (induction ts arbitrary: i w)
  case Nil
  then show ?case by (simp add: for_each_release_def)
next
  case (Cons t ts)
  obtain ok w1 where r: "Tracker_retain t w = (ok, w1)" by (cases "Tracker_retain t w")
  with Cons.prems have ok: ok and f: "find_if_not_retain ts (Suc i) w1 = (None, w')"
    by (auto split: if_splits)
  from Cons.IH [OF f] have "fold Tracker_release ts w' = w1"
    by (simp add: for_each_release_def)
  moreover have "Tracker_release t w1 = w" using release_retain [of t w] r by simp
  ultimately show ?case
    by (simp add: for_each_release_def fold_release_commute)
qed

lemma find_if_some:
  "find_if_not_retain ts i w = (Some k, w') \<Longrightarrow>
     i \<le> k \<and> k - i < length ts \<and>
     for_each_release (take (k - i) ts) w' = snd (Tracker_retain (ts ! (k - i)) w)"
proof (induction ts arbitrary: i w)
  case Nil
  then show ?case by simp
next
  case (Cons t ts)
  obtain ok w1 where r: "Tracker_retain t w = (ok, w1)" by (cases "Tracker_retain t w")
  show ?case
  proof (cases ok)
    case False
    with Cons.prems r show ?thesis by (simp add: for_each_release_def)
  next
    case True
    with Cons.prems r have f: "find_if_not_retain ts (Suc i) w1 = (Some k, w')" by simp
    from Cons.IH [OF f] have ih: "Suc i \<le> k" "k - Suc i < length ts"
      "fold Tracker_release (take (k - Suc i) ts) w' = snd (Tracker_retain (ts ! (k - Suc i)) w1)"
      by (simp_all add: for_each_release_def)
    from ih(1) have ki: "k - i = Suc (k - Suc i)" by simp
    have w: "Tracker_release t w1 = w" using release_retain [of t w] r by simp
    show ?thesis using ih r w
      by (simp add: ki for_each_release_def fold_release_commute release_retain_commute)
  qed
qed

lemma retain_isValidOverride: "isValidOverride (snd (Tracker_retain t w)) = isValidOverride w"
  by (cases t) (simp_all add: Trackable_retain_def Let_def)

lemma find_if_isValidOverride:
  "isValidOverride (snd (find_if_not_retain ts i w)) = isValidOverride w"
proof (induction ts arbitrary: i w)
  case Nil
  show ?case by simp
next
  case (Cons t ts)
  obtain ok w1 where r: "Tracker_retain t w = (ok, w1)" by (cases "Tracker_retain t w")
  then have "isValidOverride w1 = isValidOverride w"
    using retain_isValidOverride [of t w] by simp
  with r Cons.IH [of "Suc i" w1] show ?case by simp
qed

text \<open>
  C7 (as amended). \<^verbatim>\<open>Slot::isValid\<close> retains the trackers one by one and stops at the
  first whose \<^verbatim>\<open>retain\<close> answers false. When none does, it releases every tracker and
  answers the variant's \<^verbatim>\<open>isValidOverride\<close>; the state is the one before the call.
  When tracker \<open>k\<close> is the first to fail, it answers false after releasing exactly the
  trackers before \<open>k\<close>: every effect of the successful retains is undone, and what
  remains is the effect of the failed \<^verbatim>\<open>retain\<close> call itself, which for a Trackable is
  the increment of its count.
\<close>

theorem isValid_releases_retained:
  "(case fst (find_if_not_retain (slot_trackers w s) 0 w) of
      None \<Rightarrow> isValid s w = (isValidOverride w s, w)
    | Some k \<Rightarrow>
        k < length (slot_trackers w s) \<and>
        isValid s w = (False, snd (Tracker_retain (slot_trackers w s ! k) w)) \<and>
        trackable_refCount (snd (isValid s w)) =
          (case slot_trackers w s ! k of
             TrackableTracker obj \<Rightarrow>
               (trackable_refCount w)(obj := trackable_refCount w obj + 1)
           | PointerTracker obj \<Rightarrow> trackable_refCount w))"
proof (cases "find_if_not_retain (slot_trackers w s) 0 w")
  case (Pair r w')
  show ?thesis
  proof (cases r)
    case None
    with Pair have f: "find_if_not_retain (slot_trackers w s) 0 w = (None, w')" by simp
    have "isValidOverride w' = isValidOverride w"
      using find_if_isValidOverride [of "slot_trackers w s" 0 w] f by simp
    with f find_if_none [OF f] show ?thesis by (simp add: isValid_def)
  next
    case (Some k)
    with Pair have f: "find_if_not_retain (slot_trackers w s) 0 w = (Some k, w')" by simp
    from find_if_some [OF f] have k: "k < length (slot_trackers w s)"
      and e: "for_each_release (take k (slot_trackers w s)) w' =
              snd (Tracker_retain (slot_trackers w s ! k) w)" by simp_all
    have v: "isValid s w = (False, snd (Tracker_retain (slot_trackers w s ! k) w))"
      using f e by (simp add: isValid_def)
    have "trackable_refCount (snd (Tracker_retain t w)) =
          (case t of
             TrackableTracker obj \<Rightarrow>
               (trackable_refCount w)(obj := trackable_refCount w obj + 1)
           | PointerTracker obj \<Rightarrow> trackable_refCount w)" for t
      by (cases t) (simp_all add: Trackable_retain_def Let_def)
    with f k v show ?thesis by simp
  qed
qed

text \<open>
  C7 as stated fails: the check on slot 0 of \<open>sywu_released\<close> answers false and leaves
  the count of its only tracker at \<open>0\<close>, not at the \<open>-1\<close> it had.
\<close>

theorem isValid_leaves_failed_retain:
  "fst (isValid 0 sywu_released) = False \<and>
   trackable_refCount sywu_released 0 = - 1 \<and>
   trackable_refCount (snd (isValid 0 sywu_released)) 0 = 0"
  by (simp add: isValid_def sywu_released_def sywu0_def Trackable_retain_def
      for_each_release_def)

section \<open>Trackable teardown\<close>

lemma set_erase_first: "x \<in> set xs \<Longrightarrow> x \<noteq> v \<Longrightarrow> x \<in> set (erase_first xs v)"
  by (induction xs) auto

lemma Tracker_detach_frame:
  "slot_trackers (Tracker_detach t s w) = slot_trackers w"
  "overrideCalls (Tracker_detach t s w) = overrideCalls w"
  by (cases t; simp add: Trackable_detach_def)+

lemma Tracker_detach_keeps:
  "x \<in> set (trackable_slots w obj) \<Longrightarrow> x \<noteq> s \<Longrightarrow> x \<in> set (trackable_slots (Tracker_detach t s w) obj)"
  by (cases t) (auto simp: Trackable_detach_def set_erase_first)

lemma for_each_detach_frame:
  "slot_trackers (for_each_detach ts s w) = slot_trackers w \<and>
   overrideCalls (for_each_detach ts s w) = overrideCalls w"
  by (induction ts arbitrary: w) (simp_all add: for_each_detach_def Tracker_detach_frame)

lemma for_each_detach_keeps:
  "x \<in> set (trackable_slots w obj) \<Longrightarrow> x \<noteq> s \<Longrightarrow>
   x \<in> set (trackable_slots (for_each_detach ts s w) obj)"
  by (induction ts arbitrary: w) (simp_all add: for_each_detach_def Tracker_detach_keeps)

lemma Slot_disconnect_trackers:
  "slot_trackers (Slot_disconnect s w) = (slot_trackers w)(s := [])"
  by (simp add: Slot_disconnect_def Let_def disconnectOverride_def for_each_detach_frame)

lemma Slot_disconnect_calls:
  "overrideCalls (Slot_disconnect s w) = (overrideCalls w)(s := Suc (overrideCalls w s))"
  by (simp add: Slot_disconnect_def Let_def disconnectOverride_def for_each_detach_frame)

lemma Slot_disconnect_keeps:
  "x \<in> set (trackable_slots w obj) \<Longrightarrow> x \<noteq> s \<Longrightarrow>
   x \<in> set (trackable_slots (Slot_disconnect s w) obj)"
  by (simp add: Slot_disconnect_def Let_def disconnectOverride_def for_each_detach_keeps)

lemma disconnectSlots_empty: "trackable_slots (disconnectSlots obj w) obj = []"
  by (induction obj w rule: disconnectSlots.induct) (simp add: Let_def)

lemma disconnectSlots_mono:
  "overrideCalls w s \<le> overrideCalls (disconnectSlots obj w) s \<and>
   (slot_trackers w s = [] \<longrightarrow> slot_trackers (disconnectSlots obj w) s = [])"
proof (induction obj w rule: disconnectSlots.induct)
  case (1 obj w)
  show ?case
  proof (cases "trackable_slots w obj = []")
    case True
    then show ?thesis by simp
  next
    case False
    define w1 where "w1 = w\<lparr>trackable_slots := (trackable_slots w)(obj := butlast (trackable_slots w obj))\<rparr>"
    define w2 where "w2 = Slot_disconnect (last (trackable_slots w obj)) w1"
    have ih: "overrideCalls w2 s \<le> overrideCalls (disconnectSlots obj w2) s \<and>
      (slot_trackers w2 s = [] \<longrightarrow> slot_trackers (disconnectSlots obj w2) s = [])"
      using "1.IH" [OF False refl refl] by (simp add: w1_def w2_def)
    have d: "disconnectSlots obj w = disconnectSlots obj w2"
      using False by (simp add: w1_def w2_def Let_def)
    have "overrideCalls w s \<le> overrideCalls w2 s"
      by (simp add: w2_def w1_def Slot_disconnect_calls)
    moreover have "slot_trackers w s = [] \<Longrightarrow> slot_trackers w2 s = []"
      by (simp add: w2_def w1_def Slot_disconnect_trackers)
    ultimately show ?thesis using ih d by auto
  qed
qed

lemma disconnectSlots_each:
  "s \<in> set (trackable_slots w obj) \<Longrightarrow>
   slot_trackers (disconnectSlots obj w) s = [] \<and>
   overrideCalls w s < overrideCalls (disconnectSlots obj w) s"
proof (induction obj w rule: disconnectSlots.induct)
  case (1 obj w)
  from "1.prems" have ne: "trackable_slots w obj \<noteq> []" by auto
  define slot where "slot = last (trackable_slots w obj)"
  define w1 where "w1 = w\<lparr>trackable_slots := (trackable_slots w)(obj := butlast (trackable_slots w obj))\<rparr>"
  define w2 where "w2 = Slot_disconnect slot w1"
  have d: "disconnectSlots obj w = disconnectSlots obj w2"
    using ne by (simp add: w1_def w2_def slot_def Let_def)
  show ?case
  proof (cases "s = slot")
    case True
    have "slot_trackers w2 s = []" "overrideCalls w2 s = Suc (overrideCalls w s)"
      using True by (simp_all add: w2_def w1_def Slot_disconnect_trackers Slot_disconnect_calls)
    with disconnectSlots_mono [of w2 s obj] d show ?thesis by simp
  next
    case False
    have "trackable_slots w obj = butlast (trackable_slots w obj) @ [slot]"
      using ne by (simp add: slot_def)
    with "1.prems" False have "s \<in> set (butlast (trackable_slots w obj))"
      by (metis Un_iff empty_iff insert_iff list.set(1) list.simps(15) set_append)
    then have "s \<in> set (trackable_slots w1 obj)" by (simp add: w1_def)
    with False have "s \<in> set (trackable_slots w2 obj)"
      unfolding w2_def by (simp add: Slot_disconnect_keeps)
    from "1.IH" [OF ne refl refl] this
    have "slot_trackers (disconnectSlots obj w2) s = [] \<and>
          overrideCalls w2 s < overrideCalls (disconnectSlots obj w2) s"
      by (simp add: w1_def w2_def slot_def)
    moreover have "overrideCalls w2 s = overrideCalls w s"
      using False by (simp add: w2_def w1_def Slot_disconnect_calls)
    ultimately show ?thesis using d by simp
  qed
qed

text \<open>
  C9. Destroying a Trackable runs \<^verbatim>\<open>disconnectSlots\<close> to its end before the object
  is reclaimed, and so does the explicit early call: afterwards the Trackable records no
  slot, and every slot that was attached has been disconnected (its tracker list is
  empty, so it no longer refers to the Trackable, and its variant's teardown override
  has run).
\<close>

theorem Trackable_destroy_disconnects_attached:
  "trackable_slots (disconnectSlots obj w) obj = [] \<and>
   trackable_slots (Trackable_destroy obj w) obj = [] \<and>
   \<not> object_alive (Trackable_destroy obj w) obj \<and>
   (\<forall>s \<in> set (trackable_slots w obj).
      slot_trackers (disconnectSlots obj w) s = [] \<and>
      overrideCalls w s < overrideCalls (disconnectSlots obj w) s \<and>
      slot_trackers (Trackable_destroy obj w) s = [] \<and>
      overrideCalls w s < overrideCalls (Trackable_destroy obj w) s)"
proof -
  have a: "trackable_slots (Trackable_destroy obj w) = trackable_slots (disconnectSlots obj w)"
    "slot_trackers (Trackable_destroy obj w) = slot_trackers (disconnectSlots obj w)"
    "overrideCalls (Trackable_destroy obj w) = overrideCalls (disconnectSlots obj w)"
    "\<not> object_alive (Trackable_destroy obj w) obj"
    by (simp_all add: Trackable_destroy_def Let_def)
  show ?thesis
    unfolding a using disconnectSlots_empty [of obj w] disconnectSlots_each [of _ w obj] a(4)
    by blast
qed

theorem Trackable_destroy_disconnects_attached_witness:
  "set (trackable_slots sywu_tracked 7) = {1, 2} \<and>
   trackable_slots (Trackable_destroy 7 sywu_tracked) 7 = [] \<and>
   slot_trackers (Trackable_destroy 7 sywu_tracked) 1 = [] \<and>
   slot_trackers (Trackable_destroy 7 sywu_tracked) 2 = [] \<and>
   overrideCalls sywu_tracked 1 < overrideCalls (Trackable_destroy 7 sywu_tracked) 1 \<and>
   overrideCalls sywu_tracked 2 < overrideCalls (Trackable_destroy 7 sywu_tracked) 2"
proof -
  have m: "set (trackable_slots sywu_tracked 7) = {1, 2}"
    by (auto simp: sywu_tracked_def sywu0_def)
  with Trackable_destroy_disconnects_attached [of 7 sywu_tracked] show ?thesis
    by simp
qed

section \<open>Signal::disconnect erases the slot\<close>

lemma std_remove_filter: "std_remove xs v = filter (\<lambda>x. x \<noteq> v) xs"
  by (induction xs) auto

lemma core_Slot_disconnect_m_slots: "m_slots (core_Slot_disconnect s w) = m_slots w"
  by (simp add: core_Slot_disconnect_def)

lemma core_Connection_disconnect_m_slots:
  "m_slots (snd (core_Connection_disconnect c w)) = m_slots w"
  by (simp add: core_Connection_disconnect_def core_Slot_disconnect_m_slots split: option.split)

text \<open>
  C10. \<^verbatim>\<open>SignalConcept::disconnect(connection)\<close> leaves in \<^verbatim>\<open>m_slots\<close> exactly the
  entries that differ from the slot the connection resolves to, in their order: every
  occurrence of that slot is removed, not only the first, and every other slot stays where
  it was relative to the others. A connection that resolves to no slot removes only null
  entries.
\<close>

theorem Signal_disconnect_erases_every_occurrence:
  "m_slots (Signal_disconnect c w) = filter (\<lambda>slot. slot \<noteq> Connection_get c w) (m_slots w)"
  by (simp add: Signal_disconnect_def Let_def erase_def std_remove_filter
      core_Connection_disconnect_m_slots)

section \<open>Connection::disconnect\<close>

lemma isConnected_after_disconnect: "\<not> isConnected s (core_Slot_disconnect s w)"
  by (simp add: isConnected_def core_Slot_disconnect_def)

lemma core_Slot_disconnect_alive: "slot_alive (core_Slot_disconnect s w) = slot_alive w"
  by (simp add: core_Slot_disconnect_def)

lemma core_Slot_disconnect_idem:
  "core_Slot_disconnect s (core_Slot_disconnect s w) = core_Slot_disconnect s w"
  by (simp add: core_Slot_disconnect_def)

text \<open>
  C6 (as amended). \<^verbatim>\<open>comp::core::Signal::Connection::disconnect\<close> resolves the weak
  slot reference; with no live slot it returns and changes nothing; otherwise it calls
  the slot's \<^verbatim>\<open>disconnect\<close> and keeps its own reference, after which the connection
  reports not live and a second call changes nothing more.
  \<^verbatim>\<open>sywu::Connection::disconnect\<close> asserts that the slot is there, so on an invalid
  connection the assertion fails; on a valid one it calls the slot's \<^verbatim>\<open>disconnect\<close>
  and then clears its slot reference and its sender, after which the connection reports
  not live and a second call fails the assertion.
\<close>

theorem Connection_disconnect_both_generations:
  "core_Connection_disconnect c w =
     (case Connection_get c w of
        None \<Rightarrow> (c, w)
      | Some s \<Rightarrow> (c, core_Slot_disconnect s w)) \<and>
   \<not> Connection_bool c (snd (core_Connection_disconnect c w)) \<and>
   core_Connection_disconnect c (snd (core_Connection_disconnect c w)) =
     core_Connection_disconnect c w \<and>
   Connection_disconnect d v =
     (case weak_lock d v of
        None \<Rightarrow> Inl assertion_failed
      | Some s \<Rightarrow> Inr (\<lparr>m_sender = None, m_slot = None\<rparr>, Slot_disconnect s v)) \<and>
   (case Connection_disconnect d v of
      Inl e \<Rightarrow> True
    | Inr (d', v') \<Rightarrow>
        \<not> sywu_Connection_bool d' v' \<and> Connection_disconnect d' v' = Inl assertion_failed)"
  by (cases d)
    (auto simp: core_Connection_disconnect_def Connection_bool_def Connection_get_def
      isConnected_after_disconnect core_Slot_disconnect_alive core_Slot_disconnect_idem
      Connection_disconnect_def weak_lock_def sywu_Connection_bool_def
      split: option.splits)

text \<open>
  C6 as stated fails in each generation on one half: the sywu connection does not return
  quietly when it is invalid, and the core connection to the live slot 1 of
  \<open>sum_world\<close> still refers to it after the call.
\<close>

theorem Connection_disconnect_asserts_or_keeps:
  "Connection_disconnect \<lparr>m_sender = None, m_slot = None\<rparr> sywu0 = Inl assertion_failed \<and>
   Connection_get (Some 1) sum_world = Some 1 \<and>
   fst (core_Connection_disconnect (Some 1) sum_world) = Some 1"
  by (simp add: Connection_disconnect_def weak_lock_def core_Connection_disconnect_def
      Connection_get_def sum_world_def connect_function_def addSlot_def)

section \<open>Slot::disconnect\<close>





lemma isValid_no_trackers:
  "slot_trackers w s = [] \<Longrightarrow> isValid s w = (isValidOverride w s, w)"
  by (simp add: isValid_def for_each_release_def)


lemma Slot_disconnect_any_unowned:
  "\<not> slot_exists w s \<Longrightarrow> slot_trackers w s \<noteq> [] \<Longrightarrow>
   Slot_disconnect_any s w = Inl bad_weak_ptr"
  by (simp add: Slot_disconnect_any_def)





section \<open>Destroying a signal\<close>

lemma core_Slot_disconnect_marks:
  "\<not> m_isConnected (slot_store (core_Slot_disconnect s w) s)"
  by (simp add: core_Slot_disconnect_def)

lemma core_Slot_disconnect_keeps_mark:
  "\<not> m_isConnected (slot_store w t) \<Longrightarrow> \<not> m_isConnected (slot_store (core_Slot_disconnect s w) t)"
  by (simp add: core_Slot_disconnect_def)

lemma Signal_destroy_keeps_mark:
  "\<not> m_isConnected (slot_store w t) \<Longrightarrow> Signal_destroy w = Inr w' \<Longrightarrow>
   \<not> m_isConnected (slot_store w' t)"
proof (induction w rule: Signal_destroy.induct)
  case (1 w)
  show ?case
  proof (cases "m_slots w = []")
    case True
    with "1.prems" show ?thesis by simp
  next
    case False
    then obtain s where l: "last (m_slots w) = Some s"
      using "1.prems"(2) by (cases "last (m_slots w)") (simp_all add: Let_def)
    define w2 where "w2 = core_Slot_disconnect s (w\<lparr>m_slots := butlast (m_slots w)\<rparr>)"
    have d: "Signal_destroy w = Signal_destroy w2"
      using False l by (simp add: w2_def Let_def)
    have "\<not> m_isConnected (slot_store w2 t)"
      unfolding w2_def using "1.prems"(1) by (simp add: core_Slot_disconnect_keeps_mark)
    with "1.IH" [OF False refl refl l] d "1.prems"(2) show ?thesis
      by (simp add: w2_def)
  qed
qed

lemma Signal_destroy_total:
  "None \<notin> set (m_slots w) \<Longrightarrow>
   \<exists>w'. Signal_destroy w = Inr w' \<and> m_slots w' = [] \<and>
     (\<forall>s. Some s \<in> set (m_slots w) \<longrightarrow> \<not> m_isConnected (slot_store w' s))"
proof (induction w rule: Signal_destroy.induct)
  case (1 w)
  show ?case
  proof (cases "m_slots w = []")
    case True
    then show ?thesis by simp
  next
    case False
    then have sp: "m_slots w = butlast (m_slots w) @ [last (m_slots w)]" by simp
    then have "last (m_slots w) \<in> set (m_slots w)" using False by simp
    with "1.prems" obtain s where l: "last (m_slots w) = Some s"
      by (cases "last (m_slots w)") auto
    define w2 where "w2 = core_Slot_disconnect s (w\<lparr>m_slots := butlast (m_slots w)\<rparr>)"
    have d: "Signal_destroy w = Signal_destroy w2"
      using False l by (simp add: w2_def Let_def)
    have m2: "m_slots w2 = butlast (m_slots w)"
      by (simp add: w2_def core_Slot_disconnect_def)
    have "None \<notin> set (m_slots w2)"
      using "1.prems" m2 by (auto dest: in_set_butlastD)
    with "1.IH" [OF False refl refl l] obtain w' where
      r: "Signal_destroy w2 = Inr w'" "m_slots w' = []"
      and a: "\<forall>t. Some t \<in> set (m_slots w2) \<longrightarrow> \<not> m_isConnected (slot_store w' t)"
      by (auto simp: w2_def)
    have "\<not> m_isConnected (slot_store w2 s)"
      by (simp add: w2_def core_Slot_disconnect_marks)
    then have s: "\<not> m_isConnected (slot_store w' s)"
      using r(1) by (rule Signal_destroy_keeps_mark)
    have "\<not> m_isConnected (slot_store w' t)" if "Some t \<in> set (m_slots w)" for t
    proof (cases "t = s")
      case True
      with s show ?thesis by simp
    next
      case False
      from that sp have "Some t \<in> set (butlast (m_slots w)) \<or> Some t = last (m_slots w)"
        by (metis Un_iff empty_iff insert_iff list.set(1) list.simps(15) set_append)
      with False l m2 a show ?thesis by auto
    qed
    with d r show ?thesis by simp
  qed
qed

text \<open>
  C5. Destroying a signal whose slot sequence holds no null pointer pops and disconnects
  every slot: the destructor returns with \<^verbatim>\<open>m_slots\<close> empty, and every connection to a
  slot that was in the sequence reports not live afterwards, whether the slot object is
  still held by someone else or has been reclaimed.
\<close>

theorem Signal_destroy_invalidates_connections:
  "None \<notin> set (m_slots w) \<Longrightarrow>
   (case Signal_destroy w of
      Inl e \<Rightarrow> False
    | Inr w' \<Rightarrow>
        m_slots w' = [] \<and>
        (\<forall>s. Some s \<in> set (m_slots w) \<longrightarrow>
           \<not> Connection_bool (Some s) w' \<and>
           (\<forall>later. \<not> Connection_bool (Some s) (w'\<lparr>slot_alive := later\<rparr>))))"
proof -
  assume "None \<notin> set (m_slots w)"
  from Signal_destroy_total [OF this] obtain w' where
    r: "Signal_destroy w = Inr w'" "m_slots w' = []"
    and a: "\<forall>s. Some s \<in> set (m_slots w) \<longrightarrow> \<not> m_isConnected (slot_store w' s)"
    by blast
  have "\<not> m_isConnected (slot_store w' s) \<Longrightarrow> \<not> Connection_bool (Some s) (w'\<lparr>slot_alive := x\<rparr>)" for s x
    by (simp add: Connection_bool_def Connection_get_def isConnected_def)
  moreover have "\<not> m_isConnected (slot_store w' s) \<Longrightarrow> \<not> Connection_bool (Some s) w'" for s
    by (simp add: Connection_bool_def Connection_get_def isConnected_def)
  ultimately show ?thesis using r a by simp
qed

theorem Signal_destroy_invalidates_connections_witness:
  "None \<notin> set (m_slots sum_world) \<and> Connection_bool (Some 1) sum_world \<and>
   Connection_bool (Some 2) sum_world \<and>
   (case Signal_destroy sum_world of
      Inl e \<Rightarrow> False
    | Inr w' \<Rightarrow> m_slots w' = [] \<and> \<not> Connection_bool (Some 1) w' \<and> \<not> Connection_bool (Some 2) w')"
proof -
  have m: "m_slots sum_world = [Some 1, Some 2]"
    by (simp add: sum_world_def connect_function_def addSlot_def empty_world_def)
  have b: "Connection_bool (Some 1) sum_world \<and> Connection_bool (Some 2) sum_world"
    by (simp add: sum_world_def connect_function_def addSlot_def empty_world_def
        Connection_bool_def Connection_get_def isConnected_def new_slot_def)
  from m have n: "None \<notin> set (m_slots sum_world)" by simp
  show ?thesis
  proof (cases "Signal_destroy sum_world")
    case (Inl e)
    with Signal_destroy_invalidates_connections [OF n] show ?thesis
      by (simp del: Signal_destroy.simps)
  next
    case (Inr w')
    with Signal_destroy_invalidates_connections [OF n] m
    have "m_slots w' = []" "\<not> Connection_bool (Some 1) w'" "\<not> Connection_bool (Some 2) w'"
      by (simp_all del: Signal_destroy.simps)
    with Inr b n show ?thesis by (simp del: Signal_destroy.simps)
  qed
qed

section \<open>Blocked and re-entrant emission\<close>

lemma operator_call_guarded:
  "m_blocked w \<or> m_emitGuard w \<Longrightarrow> operator_call invoke a w = (Inr 0, [], w)"
  by (auto simp: operator_call_def)

lemma reentering_guarded:
  "m_emitGuard w \<Longrightarrow> reentering inner outer c x w = outer c x w"
  by (simp add: reentering_def operator_call_guarded)

lemma activate_reentering:
  "m_emitGuard w \<Longrightarrow> activate (reentering inner outer) s a w = activate outer s a w"
  by (simp add: activate_def activateOverride_def reentering_guarded split: slot_variant.split)

lemma activate_guard:
  "guard_kept invoke \<Longrightarrow> activate invoke s a w = (r, called, a', w') \<Longrightarrow>
   m_emitGuard w' = m_emitGuard w"
  by (auto simp: activate_def activateOverride_def guard_kept_def
      split: if_splits slot_variant.splits prod.splits)
    (metis snd_conv)+

lemma Signal_disconnect_guard: "m_emitGuard (Signal_disconnect c w) = m_emitGuard w"
  by (simp add: Signal_disconnect_def Let_def core_Connection_disconnect_def
      core_Slot_disconnect_def split: option.split)

lemma emit_loop_reentering:
  "guard_kept outer \<Longrightarrow> m_emitGuard w \<Longrightarrow>
   emit_loop (reentering inner outer) a slots n calls w = emit_loop outer a slots n calls w"
proof (induction slots arbitrary: a n calls w)
  case Nil
  show ?case by simp
next
  case (Cons p slots)
  show ?case
  proof (cases p)
    case None
    then show ?thesis by simp
  next
    case (Some s)
    show ?thesis
    proof (cases "isConnected s w")
      case False
      with Some Cons show ?thesis by simp
    next
      case True
      define w1 where "w1 = w\<lparr>activeConnection := Some s\<rparr>"
      obtain r called a' w2 where act: "activate outer s a w1 = (r, called, a', w2)"
        by (cases "activate outer s a w1") auto
      have g1: "m_emitGuard w1" using Cons.prems(2) by (simp add: w1_def)
      then have act': "activate (reentering inner outer) s a w1 = (r, called, a', w2)"
        using act by (simp add: activate_reentering)
      have g2: "m_emitGuard w2"
        using activate_guard [OF Cons.prems(1) act] g1 by simp
      define w3 where "w3 = w2\<lparr>activeConnection := activeConnection w\<rparr>"
      have g3: "m_emitGuard w3" "m_emitGuard (Signal_disconnect (Some s) w3)"
        using g2 by (simp_all add: w3_def Signal_disconnect_guard)
      note ih = Cons.IH [OF Cons.prems(1) g3(1)] Cons.IH [OF Cons.prems(1) g3(2)]
      show ?thesis
        using Some True act act' ih
        by (simp add: w1_def [symmetric] Let_def w3_def [symmetric]
            split: option.split failure.split)
    qed
  qed
qed

lemma prune_guard: "m_emitGuard (prune w) = m_emitGuard w"
  by (simp add: prune_def)

text \<open>
  C2. An emission on a signal that is blocked, or whose emit guard is locked, returns 0,
  reaches no slot and changes nothing. The guard is locked whenever a slot body runs:
  letting every slot body first emit the same signal again (user code leaves the guard
  alone) gives the very emission one gets without those attempts, so each inner attempt
  returned 0 and reached no slot.
\<close>

theorem operator_call_refuses_reentry:
  "(m_blocked w \<or> m_emitGuard w \<longrightarrow> operator_call invoke a w = (Inr 0, [], w)) \<and>
   (guard_kept outer \<longrightarrow>
      operator_call (reentering inner outer) a w = operator_call outer a w)"
proof -
  have "operator_call (reentering inner outer) a w = operator_call outer a w"
    if k: "guard_kept outer"
  proof (cases "m_blocked w \<or> m_emitGuard w")
    case True
    then show ?thesis by (simp add: operator_call_guarded)
  next
    case False
    have "m_emitGuard (prune (w\<lparr>m_emitGuard := True\<rparr>))" by (simp add: prune_guard)
    from emit_loop_reentering [OF k this] show ?thesis
      by (simp add: operator_call_def Let_def)
  qed
  then show ?thesis using operator_call_guarded [of w invoke a] by blast
qed

lemma count_invoke_guard_kept: "guard_kept count_invoke"
  by (simp add: guard_kept_def count_invoke_def)

theorem operator_call_refuses_reentry_witness:
  "m_emitGuard (busy_world\<lparr>m_emitGuard := True\<rparr>) \<and>
   operator_call busy_invoke () (busy_world\<lparr>m_emitGuard := True\<rparr>) =
     (Inr 0, [], busy_world\<lparr>m_emitGuard := True\<rparr>) \<and>
   guard_kept count_invoke \<and>
   operator_call (reentering count_invoke count_invoke) () busy_world =
     operator_call count_invoke () busy_world \<and>
   fst (operator_call (reentering count_invoke count_invoke) () busy_world) = Inr 3 \<and>
   fst (snd (operator_call (reentering count_invoke count_invoke) () busy_world)) =
     [(1, ()), (2, ()), (3, ())]"
proof -
  have e: "fst (operator_call count_invoke () busy_world) = Inr 3 \<and>
     fst (snd (operator_call count_invoke () busy_world)) = [(1, ()), (2, ()), (3, ())]"
    by (simp add: operator_call_def busy_world_def count_invoke_def connect_function_def
        addSlot_def empty_world_def new_slot_def prune_def erase_if_def isConnected_def
        activate_def activateOverride_def Let_def)
  from operator_call_refuses_reentry
    [of "busy_world\<lparr>m_emitGuard := True\<rparr>" busy_invoke "()" count_invoke count_invoke]
    operator_call_refuses_reentry [of busy_world count_invoke "()" count_invoke count_invoke]
    count_invoke_guard_kept e
  show ?thesis by simp
qed

section \<open>Stale targets\<close>

lemma operator_call_open:
  assumes "\<not> m_blocked w" "\<not> m_emitGuard w"
  shows "fst (operator_call invoke a w) =
           fst (emit_loop invoke a (m_slots (prune (w\<lparr>m_emitGuard := True\<rparr>))) 0 []
             (prune (w\<lparr>m_emitGuard := True\<rparr>)))"
    and "fst (snd (operator_call invoke a w)) =
           fst (snd (emit_loop invoke a (m_slots (prune (w\<lparr>m_emitGuard := True\<rparr>))) 0 []
             (prune (w\<lparr>m_emitGuard := True\<rparr>))))"
    and "snd (snd (operator_call invoke a w)) =
           (snd (snd (emit_loop invoke a (m_slots (prune (w\<lparr>m_emitGuard := True\<rparr>))) 0 []
             (prune (w\<lparr>m_emitGuard := True\<rparr>)))))\<lparr>m_emitGuard := False\<rparr>"
  using assms by (simp_all add: operator_call_def Let_def split: prod.split)

lemma activateOverride_stale:
  "stale s w \<Longrightarrow> activateOverride invoke s a w = (Some bad_slot, False, a, w)"
  by (auto simp: stale_def activateOverride_def split: slot_variant.splits)

lemma activate_stale:
  "m_isEnabled (slot_store w s) \<Longrightarrow> stale s w \<Longrightarrow>
   activate invoke s a w = (Some bad_slot, False, a, w)"
  by (simp add: activate_def activateOverride_stale)








section \<open>The snapshot\<close>

lemma std_remove_if_filter: "std_remove_if xs p = filter (\<lambda>x. \<not> p x) xs"
  by (induction xs) auto

lemma prune_connected_slots: "m_slots (prune w) = map Some (connected_slots w)"
proof -
  have "filter (\<lambda>x. \<not> (case x of None \<Rightarrow> True | Some s \<Rightarrow> \<not> isConnected s w)) xs =
        map Some (concat (map (\<lambda>x. case x of None \<Rightarrow> [] | Some s \<Rightarrow> if isConnected s w then [s] else []) xs))" for xs
    by (induction xs) (auto split: option.split)
  then show ?thesis
    by (simp add: prune_def erase_if_def std_remove_if_filter connected_slots_def)
qed

lemma isConnected_guard [simp]:
  "isConnected s (w\<lparr>m_emitGuard := g\<rparr>) = isConnected s w"
  "isConnected s (w\<lparr>activeConnection := c\<rparr>) = isConnected s w"
  "isConnected s (w\<lparr>m_slots := l\<rparr>) = isConnected s w"
  by (simp_all add: isConnected_def)

lemma set_connected_slots:
  "s \<in> set (connected_slots w) \<longleftrightarrow> Some s \<in> set (m_slots w) \<and> isConnected s w"
  by (auto simp: connected_slots_def split: option.splits if_splits)

lemma emit_loop_calls:
  "(s, x) \<in> set (fst (snd (emit_loop invoke a slots n calls w))) \<Longrightarrow>
   (s, x) \<in> set calls \<or> Some s \<in> set slots"
proof (induction slots arbitrary: a n calls w)
  case Nil
  then show ?case by simp
next
  case (Cons p slots)
  show ?case
  proof (cases p)
    case None
    with Cons.prems show ?thesis by simp
  next
    case (Some t)
    show ?thesis
    proof (cases "isConnected t w")
      case False
      with Some Cons.prems have "(s, x) \<in> set (fst (snd (emit_loop invoke a slots n calls w)))"
        by simp
      from Cons.IH [OF this] show ?thesis by auto
    next
      case True
      obtain r called a' w2 where act:
        "activate invoke t a (w\<lparr>activeConnection := Some t\<rparr>) = (r, called, a', w2)"
        by (cases "activate invoke t a (w\<lparr>activeConnection := Some t\<rparr>)") auto
      define calls' where "calls' = (if called then calls @ [(t, a)] else calls)"
      define w3 where "w3 = w2\<lparr>activeConnection := activeConnection w\<rparr>"
      have c: "(s, x) \<in> set calls' \<Longrightarrow> (s, x) \<in> set calls \<or> s = t"
        by (auto simp: calls'_def split: if_splits)
      have "(s, x) \<in> set calls' \<or> Some s \<in> set slots"
      proof (cases r)
        case None
        with Some True act Cons.prems
        have "(s, x) \<in> set (fst (snd (emit_loop invoke a' slots (n + 1) calls' w3)))"
          by (simp add: Let_def calls'_def w3_def)
        from Cons.IH [OF this] show ?thesis .
      next
        case (Some e)
        show ?thesis
        proof (cases "e = bad_slot \<or> e = bad_weak_ptr")
          case True
          with Some \<open>p = Some t\<close> \<open>isConnected t w\<close> act Cons.prems
          have "(s, x) \<in> set (fst (snd (emit_loop invoke a' slots n calls'
                  (Signal_disconnect (Some t) w3))))"
            by (auto simp: Let_def calls'_def w3_def)
          from Cons.IH [OF this] show ?thesis .
        next
          case False
          with Some \<open>p = Some t\<close> \<open>isConnected t w\<close> act Cons.prems
          have "(s, x) \<in> set calls'"
            by (cases e) (simp_all add: Let_def calls'_def w3_def)
          then show ?thesis by simp
        qed
      qed
      with c Some show ?thesis by auto
    qed
  qed
qed

lemma activate_stays_disconnected:
  "stays_disconnected invoke s \<Longrightarrow> \<not> isConnected s w \<Longrightarrow>
   activate invoke t a w = (r, called, a', w') \<Longrightarrow> \<not> isConnected s w'"
  by (auto simp: activate_def activateOverride_def stays_disconnected_def
      split: if_splits slot_variant.splits prod.splits)
    (metis snd_conv)+

lemma Signal_disconnect_stays_disconnected:
  "\<not> isConnected s w \<Longrightarrow> \<not> isConnected s (Signal_disconnect c w)"
  by (auto simp: Signal_disconnect_def Let_def core_Connection_disconnect_def
      core_Slot_disconnect_def isConnected_def split: option.splits)

lemma emit_loop_skips_disconnected:
  "stays_disconnected invoke s \<Longrightarrow> \<not> isConnected s w \<Longrightarrow>
   (s, x) \<in> set (fst (snd (emit_loop invoke a slots n calls w))) \<Longrightarrow> (s, x) \<in> set calls"
proof (induction slots arbitrary: a n calls w)
  case Nil
  then show ?case by simp
next
  case (Cons p slots)
  show ?case
  proof (cases p)
    case None
    with Cons.prems show ?thesis by simp
  next
    case (Some t)
    show ?thesis
    proof (cases "isConnected t w")
      case False
      with Some Cons.prems have "(s, x) \<in> set (fst (snd (emit_loop invoke a slots n calls w)))"
        by simp
      from Cons.IH [OF Cons.prems(1,2) this] show ?thesis .
    next
      case True
      with Cons.prems(2) have ts: "t \<noteq> s" by auto
      obtain r called a' w2 where act:
        "activate invoke t a (w\<lparr>activeConnection := Some t\<rparr>) = (r, called, a', w2)"
        by (cases "activate invoke t a (w\<lparr>activeConnection := Some t\<rparr>)") auto
      define calls' where "calls' = (if called then calls @ [(t, a)] else calls)"
      define w3 where "w3 = w2\<lparr>activeConnection := activeConnection w\<rparr>"
      have "\<not> isConnected s (w\<lparr>activeConnection := Some t\<rparr>)"
        using Cons.prems(2) by simp
      from activate_stays_disconnected [OF Cons.prems(1) this act]
      have d3: "\<not> isConnected s w3" by (simp add: w3_def)
      then have d4: "\<not> isConnected s (Signal_disconnect (Some t) w3)"
        by (rule Signal_disconnect_stays_disconnected)
      have c: "(s, x) \<in> set calls' \<Longrightarrow> (s, x) \<in> set calls"
        using ts by (auto simp: calls'_def split: if_splits)
      have "(s, x) \<in> set calls'"
      proof (cases r)
        case None
        with Some True act Cons.prems(3)
        have "(s, x) \<in> set (fst (snd (emit_loop invoke a' slots (n + 1) calls' w3)))"
          by (simp add: Let_def calls'_def w3_def)
        from Cons.IH [OF Cons.prems(1) d3 this] show ?thesis .
      next
        case (Some e)
        show ?thesis
        proof (cases "e = bad_slot \<or> e = bad_weak_ptr")
          case True
          with Some \<open>p = Some t\<close> \<open>isConnected t w\<close> act Cons.prems(3)
          have "(s, x) \<in> set (fst (snd (emit_loop invoke a' slots n calls'
                  (Signal_disconnect (Some t) w3))))"
            by (auto simp: Let_def calls'_def w3_def)
          from Cons.IH [OF Cons.prems(1) d4 this] show ?thesis .
        next
          case False
          with Some \<open>p = Some t\<close> \<open>isConnected t w\<close> act Cons.prems(3)
          show ?thesis
            by (cases e) (simp_all add: Let_def calls'_def w3_def)
        qed
      qed
      with c show ?thesis by simp
    qed
  qed
qed

lemma prune_eq: "prune w = w\<lparr>m_slots := map Some (connected_slots w)\<rparr>"
  using prune_connected_slots [of w] by (simp add: prune_def)

lemma connected_slots_guard:
  "connected_slots (w\<lparr>m_emitGuard := g\<rparr>) = connected_slots w"
  by (simp add: connected_slots_def cong: option.case_cong)

text \<open>
  C3. An emission on a signal that is neither blocked nor emitting first prunes
  \<^verbatim>\<open>m_slots\<close> to its connected slots, in registration order, and then runs the loop on
  a copy of that sequence. Whatever the user's code does, a slot it reaches was in
  \<^verbatim>\<open>m_slots\<close> and connected when the emission began: a slot connected by a running
  slot is not reached in this round. And from a state in which a slot is not connected,
  the rest of the loop does not reach it, though it is still in the copy (user code
  cannot make it connected again): it is skipped when its turn comes.
\<close>

theorem emission_works_on_snapshot:
  "m_slots (prune w) = map Some (connected_slots w) \<and>
   (\<not> m_blocked w \<and> \<not> m_emitGuard w \<longrightarrow>
      operator_call invoke a w =
        (case emit_loop invoke a (map Some (connected_slots w)) 0 []
                (w\<lparr>m_emitGuard := True, m_slots := map Some (connected_slots w)\<rparr>) of
           (r, calls, w3) \<Rightarrow> (r, calls, w3\<lparr>m_emitGuard := False\<rparr>))) \<and>
   ((s, x) \<in> set (fst (snd (operator_call invoke a w))) \<longrightarrow>
      Some s \<in> set (m_slots w) \<and> isConnected s w) \<and>
   (stays_disconnected invoke s \<and> \<not> isConnected s w \<longrightarrow>
      (s, x) \<notin> set (fst (snd (emit_loop invoke a slots n [] w))))"
proof -
  have o: "operator_call invoke a w =
        (case emit_loop invoke a (map Some (connected_slots w)) 0 []
                (w\<lparr>m_emitGuard := True, m_slots := map Some (connected_slots w)\<rparr>) of
           (r, calls, w3) \<Rightarrow> (r, calls, w3\<lparr>m_emitGuard := False\<rparr>))"
    if "\<not> m_blocked w" "\<not> m_emitGuard w"
    using that
    by (simp add: operator_call_def Let_def prune_eq [of "w\<lparr>m_emitGuard := True\<rparr>"]
        connected_slots_guard)
  have "Some s \<in> set (m_slots w) \<and> isConnected s w"
    if h: "(s, x) \<in> set (fst (snd (operator_call invoke a w)))"
  proof (cases "m_blocked w \<or> m_emitGuard w")
    case True
    with h show ?thesis by (auto simp: operator_call_def)
  next
    case False
    let ?w2 = "prune (w\<lparr>m_emitGuard := True\<rparr>)"
    from h False have "(s, x) \<in> set (fst (snd (emit_loop invoke a (m_slots ?w2) 0 [] ?w2)))"
      by (simp add: operator_call_open(2))
    from emit_loop_calls [OF this] have "Some s \<in> set (m_slots ?w2)" by simp
    then show ?thesis
      by (auto simp: prune_connected_slots set_connected_slots)
  qed
  moreover have "(s, x) \<notin> set (fst (snd (emit_loop invoke a slots n [] w)))"
    if "stays_disconnected invoke s" "\<not> isConnected s w"
    using emit_loop_skips_disconnected [OF that, of x a slots n "[]"] by auto
  ultimately show ?thesis using o by (simp add: prune_connected_slots)
qed

lemma busy_invoke_stays_disconnected: "stays_disconnected busy_invoke 2"
  by (auto simp: stays_disconnected_def busy_invoke_def Let_def isConnected_def
      connect_function_def addSlot_def core_Connection_disconnect_def Connection_get_def
      core_Slot_disconnect_def)


theorem emission_works_on_snapshot_witness:
  "fst (operator_call busy_invoke () busy_world) = Inr 2 \<and>
   fst (snd (operator_call busy_invoke () busy_world)) = [(1, ()), (3, ())] \<and>
   m_slots (snd (snd (operator_call busy_invoke () busy_world))) =
     [Some 1, Some 2, Some 3, Some 4] \<and>
   Some 1 \<in> set (m_slots busy_world) \<and> isConnected 1 busy_world \<and>
   stays_disconnected busy_invoke 2 \<and>
   \<not> isConnected 2 busy_world_disconnected \<and>
   (2, ()) \<notin> set (fst (snd (emit_loop busy_invoke () [Some 2, Some 3] 1 []
      busy_world_disconnected))) \<and>
   \<not> m_blocked busy_world_disconnected \<and> \<not> m_emitGuard busy_world_disconnected \<and>
   m_slots busy_world_disconnected = [Some 1, Some 2, Some 3] \<and>
   connected_slots busy_world_disconnected = [1, 3] \<and>
   operator_call count_invoke () busy_world_disconnected =
     (case emit_loop count_invoke () [Some 1, Some 3] 0 []
             (busy_world_disconnected\<lparr>m_emitGuard := True, m_slots := [Some 1, Some 3]\<rparr>) of
        (r, calls, w3) \<Rightarrow> (r, calls, w3\<lparr>m_emitGuard := False\<rparr>)) \<and>
   fst (operator_call count_invoke () busy_world_disconnected) = Inr 2 \<and>
   m_slots (snd (snd (operator_call count_invoke () busy_world_disconnected))) =
     [Some 1, Some 3]"
proof -
  have e: "fst (operator_call busy_invoke () busy_world) = Inr 2"
    "fst (snd (operator_call busy_invoke () busy_world)) = [(1, ()), (3, ())]"
    "m_slots (snd (snd (operator_call busy_invoke () busy_world))) =
       [Some 1, Some 2, Some 3, Some 4]"
    by code_simp+
  from e(2) have i: "(1, ()) \<in> set (fst (snd (operator_call busy_invoke () busy_world)))"
    by simp
  have d: "\<not> isConnected 2 busy_world_disconnected"
    by (simp add: busy_world_disconnected_def isConnected_def core_Slot_disconnect_def)
  have p: "\<not> m_blocked busy_world_disconnected" "\<not> m_emitGuard busy_world_disconnected"
    "m_slots busy_world_disconnected = [Some 1, Some 2, Some 3]"
    "connected_slots busy_world_disconnected = [1, 3]"
    by code_simp+
  have q: "fst (operator_call count_invoke () busy_world_disconnected) = Inr 2"
    "m_slots (snd (snd (operator_call count_invoke () busy_world_disconnected))) =
       [Some 1, Some 3]"
    by code_simp+
  note k = busy_invoke_stays_disconnected
  from emission_works_on_snapshot
    [where w = busy_world and s = 1 and x = "()" and invoke = busy_invoke and a = "()"] i
  have m: "Some 1 \<in> set (m_slots busy_world)" "isConnected 1 busy_world" by blast+
  from emission_works_on_snapshot
    [where w = busy_world_disconnected and s = 2 and x = "()" and invoke = busy_invoke
       and a = "()" and slots = "[Some 2, Some 3]" and n = 1] k d
  have sk: "(2, ()) \<notin> set (fst (snd (emit_loop busy_invoke () [Some 2, Some 3] 1 []
      busy_world_disconnected)))" by blast
  from emission_works_on_snapshot
    [where w = busy_world_disconnected and invoke = count_invoke and a = "()"] p(1,2)
  have "operator_call count_invoke () busy_world_disconnected =
     (case emit_loop count_invoke () (map Some (connected_slots busy_world_disconnected)) 0 []
             (busy_world_disconnected\<lparr>m_emitGuard := True,
                m_slots := map Some (connected_slots busy_world_disconnected)\<rparr>) of
        (r, calls, w3) \<Rightarrow> (r, calls, w3\<lparr>m_emitGuard := False\<rparr>))" by blast
  then have o: "operator_call count_invoke () busy_world_disconnected =
     (case emit_loop count_invoke () [Some 1, Some 3] 0 []
             (busy_world_disconnected\<lparr>m_emitGuard := True, m_slots := [Some 1, Some 3]\<rparr>) of
        (r, calls, w3) \<Rightarrow> (r, calls, w3\<lparr>m_emitGuard := False\<rparr>))"
    by (simp only: p(4) list.map)
  from e m k d sk p o q show ?thesis by blast
qed

section \<open>What an emission invokes and counts\<close>

lemma same_objects:
  assumes "slot_store w' = slot_store w" "alive w' = alive w"
  shows "isConnected s w' = isConnected s w" and "stale s w' = stale s w"
  using assms by (simp_all add: isConnected_def stale_def split: slot_variant.split)

lemma activate_leaves_slots:
  assumes "leaves_slots invoke" "keeps_arguments invoke"
    and "\<not> (m_isEnabled (slot_store w s) \<and> stale s w)"
  shows "\<exists>w2. activate invoke s a w = (None, m_isEnabled (slot_store w s), a, w2) \<and>
           slot_store w2 = slot_store w \<and> slot_alive w2 = slot_alive w \<and> alive w2 = alive w"
proof (cases "m_isEnabled (slot_store w s)")
  case False
  then show ?thesis by (simp add: activate_def)
next
  case True
  have i: "\<exists>w2. invoke c a w = (None, a, w2) \<and> slot_store w2 = slot_store w \<and>
      slot_alive w2 = slot_alive w \<and> alive w2 = alive w" for c
    using assms(1,2) unfolding leaves_slots_def keeps_arguments_def
    by (metis prod.collapse)
  show ?thesis
  proof (cases "variant (slot_store w s)")
    case (FunctionSlot f)
    with True i [of "Function f"] show ?thesis
      by (auto simp: activate_def activateOverride_def)
  next
    case (MethodSlot target f)
    with True assms(3) have "alive w target" by (simp add: stale_def)
    with MethodSlot True i [of "Method target f"] show ?thesis
      by (auto simp: activate_def activateOverride_def)
  next
    case (SignalSlot receiver)
    with True i [of "Receiver receiver"] show ?thesis
      by (auto simp: activate_def activateOverride_def)
  qed
qed

lemma Signal_disconnect_objects:
  assumes "slot_alive w s"
  shows "alive (Signal_disconnect (Some s) w) = alive w"
    and "slot_alive (Signal_disconnect (Some s) w) = slot_alive w"
    and "\<not> isConnected s (Signal_disconnect (Some s) w)"
    and "t \<noteq> s \<Longrightarrow> slot_store (Signal_disconnect (Some s) w) t = slot_store w t"
  using assms
  by (simp_all add: Signal_disconnect_def Let_def Connection_get_def
      core_Connection_disconnect_def core_Slot_disconnect_def isConnected_def)

lemma other_slot_same:
  assumes "slot_store w' t = slot_store w t" "alive w' = alive w"
  shows "isConnected t w' = isConnected t w" and "stale t w' = stale t w"
  using assms by (simp_all add: isConnected_def stale_def split: slot_variant.split)

lemma emit_loop_leaves_slots:
  assumes "leaves_slots invoke" "keeps_arguments invoke"
  shows "\<forall>s \<in> set ss. slot_alive w s \<Longrightarrow>
    fst (emit_loop invoke a (map Some ss) n calls w) =
      Inr (n + length (filter
        (\<lambda>s. isConnected s w \<and> \<not> (m_isEnabled (slot_store w s) \<and> stale s w)) ss)) \<and>
    fst (snd (emit_loop invoke a (map Some ss) n calls w)) =
      calls @ map (\<lambda>s. (s, a)) (filter
        (\<lambda>s. isConnected s w \<and> m_isEnabled (slot_store w s) \<and> \<not> stale s w) ss)"
proof (induction ss arbitrary: n calls w)
  case Nil
  show ?case by simp
next
  case (Cons s ss)
  let ?P = "\<lambda>w s. isConnected s w \<and> \<not> (m_isEnabled (slot_store w s) \<and> stale s w)"
  let ?Q = "\<lambda>w s. isConnected s w \<and> m_isEnabled (slot_store w s) \<and> \<not> stale s w"
  from Cons.prems have al: "slot_alive w s" "\<forall>t \<in> set ss. slot_alive w t" by simp_all
  show ?case
  proof (cases "isConnected s w")
    case False
    with Cons.IH [OF al(2), of n calls] show ?thesis by simp
  next
    case True
    let ?w1 = "w\<lparr>activeConnection := Some s\<rparr>"
    have o1: "slot_store ?w1 = slot_store w" "alive ?w1 = alive w" by simp_all
    show ?thesis
    proof (cases "m_isEnabled (slot_store w s) \<and> stale s w")
      case throws: True
      then have "m_isEnabled (slot_store ?w1 s)" "stale s ?w1"
        using same_objects(2) [OF o1] by simp_all
      then have act: "activate invoke s a ?w1 = (Some bad_slot, False, a, ?w1)"
        by (rule activate_stale)
      let ?w4 = "Signal_disconnect (Some s) w"
      have r: "?w1\<lparr>activeConnection := activeConnection w\<rparr> = w" by simp
      have step: "emit_loop invoke a (map Some (s # ss)) n calls w =
                  emit_loop invoke a (map Some ss) n calls ?w4"
        using True act r by (simp add: Let_def)
      note d = Signal_disconnect_objects [OF al(1)]
      have al4: "\<forall>t \<in> set ss. slot_alive ?w4 t" using al(2) d(2) by simp
      have eqP: "?P ?w4 t = ?P w t" and eqQ: "?Q ?w4 t = ?Q w t" for t
      proof -
        show "?P ?w4 t = ?P w t"
        proof (cases "t = s")
          case True
          with d(3) throws show ?thesis by simp
        next
          case False
          from other_slot_same [OF d(4) [OF False] d(1)] d(4) [OF False]
          show ?thesis by simp
        qed
        show "?Q ?w4 t = ?Q w t"
        proof (cases "t = s")
          case True
          with d(3) throws show ?thesis by simp
        next
          case False
          from other_slot_same [OF d(4) [OF False] d(1)] d(4) [OF False]
          show ?thesis by simp
        qed
      qed
      have fP: "filter (?P ?w4) ss = filter (?P w) ss" and fQ: "filter (?Q ?w4) ss = filter (?Q w) ss"
        using eqP eqQ by (auto intro: filter_cong)
      from Cons.IH [OF al4, of n calls] step throws True show ?thesis
        by (simp only: fP fQ) simp
    next
      case False
      then have ns: "\<not> (m_isEnabled (slot_store ?w1 s) \<and> stale s ?w1)"
        using same_objects(2) [OF o1] by simp
      from activate_leaves_slots [OF assms ns, of a] obtain w2 where
        act: "activate invoke s a ?w1 = (None, m_isEnabled (slot_store w s), a, w2)"
        and st: "slot_store w2 = slot_store w" "slot_alive w2 = slot_alive w" "alive w2 = alive w"
        by auto
      define w3 where "w3 = w2\<lparr>activeConnection := activeConnection w\<rparr>"
      have st3: "slot_store w3 = slot_store w" "slot_alive w3 = slot_alive w" "alive w3 = alive w"
        using st by (simp_all add: w3_def)
      have al3: "\<forall>t \<in> set ss. slot_alive w3 t" using al(2) st3(2) by simp
      have fP: "filter (?P w3) ss = filter (?P w) ss" and fQ: "filter (?Q w3) ss = filter (?Q w) ss"
        using same_objects [OF st3(1,3)] st3(1) by simp_all
      have step: "emit_loop invoke a (map Some (s # ss)) n calls w =
          emit_loop invoke a (map Some ss) (n + 1)
            (if m_isEnabled (slot_store w s) then calls @ [(s, a)] else calls) w3"
        using True act by (simp add: Let_def w3_def)
      from Cons.IH [OF al3, of "n + 1"
          "if m_isEnabled (slot_store w s) then calls @ [(s, a)] else calls"]
        step False True
      show ?thesis
        by (simp only: fP fQ) auto
    qed
  qed
qed

text \<open>
  C1 (as amended). Take a signal that is neither blocked nor emitting, every slot of
  whose sequence exists, and slot code that raises nothing, leaves the slot objects and
  the tracked objects alone and leaves the arguments as it got them. An emission with
  the arguments \<open>a\<close> then reaches the code of exactly the connected slots that are
  enabled and are not method slots with an expired target, in registration order, each
  with \<open>a\<close>. It returns the number of connected slots whose activation returns: a
  connected slot that is disabled is activated and counted like the others, though its
  code does not run, and only an enabled method slot with an expired target is left out
  of the count.
\<close>

theorem emission_reaches_enabled_counts_connected:
  "leaves_slots invoke \<and> keeps_arguments invoke \<and> \<not> m_blocked w \<and> \<not> m_emitGuard w \<and>
   slots_exist w \<longrightarrow>
     fst (operator_call invoke a w) =
       Inr (length (filter (\<lambda>s. \<not> (m_isEnabled (slot_store w s) \<and> stale s w))
         (connected_slots w))) \<and>
     fst (snd (operator_call invoke a w)) =
       map (\<lambda>s. (s, a))
         (filter (\<lambda>s. m_isEnabled (slot_store w s) \<and> \<not> stale s w) (connected_slots w))"
proof (intro impI, elim conjE)
  assume l: "leaves_slots invoke" and k: "keeps_arguments invoke"
    and b: "\<not> m_blocked w" "\<not> m_emitGuard w" and ex: "slots_exist w"
  let ?w2 = "prune (w\<lparr>m_emitGuard := True\<rparr>)"
  have o: "slot_store ?w2 = slot_store w" "alive ?w2 = alive w" "slot_alive ?w2 = slot_alive w"
    by (simp_all add: prune_def)
  have m: "m_slots ?w2 = map Some (connected_slots w)"
    by (simp add: prune_connected_slots connected_slots_guard)
  have "slot_alive w s" if "s \<in> set (connected_slots w)" for s
  proof -
    from that have "Some s \<in> set (m_slots w)" by (simp add: set_connected_slots)
    with ex show ?thesis unfolding slots_exist_def by force
  qed
  then have al: "\<forall>s \<in> set (connected_slots w). slot_alive ?w2 s"
    using o(3) by simp
  have c: "\<forall>s \<in> set (connected_slots w). isConnected s ?w2"
    using same_objects(1) [OF o(1,2)] by (simp add: set_connected_slots)
  have fP: "filter (\<lambda>s. isConnected s ?w2 \<and> \<not> (m_isEnabled (slot_store ?w2 s) \<and> stale s ?w2))
              (connected_slots w) =
            filter (\<lambda>s. \<not> (m_isEnabled (slot_store w s) \<and> stale s w)) (connected_slots w)"
    using c same_objects(2) [OF o(1,2)] o(1) by (auto intro: filter_cong)
  have fQ: "filter (\<lambda>s. isConnected s ?w2 \<and> m_isEnabled (slot_store ?w2 s) \<and> \<not> stale s ?w2)
              (connected_slots w) =
            filter (\<lambda>s. m_isEnabled (slot_store w s) \<and> \<not> stale s w) (connected_slots w)"
    using c same_objects(2) [OF o(1,2)] o(1) by (auto intro: filter_cong)
  have oc: "fst (operator_call invoke a w) =
        fst (emit_loop invoke a (map Some (connected_slots w)) 0 [] ?w2)"
    "fst (snd (operator_call invoke a w)) =
        fst (snd (emit_loop invoke a (map Some (connected_slots w)) 0 [] ?w2))"
    using operator_call_open(1,2) [OF b, of invoke a] by (simp_all only: m)
  from emit_loop_leaves_slots [OF l k al, of a 0 "[]"]
  show "fst (operator_call invoke a w) =
       Inr (length (filter (\<lambda>s. \<not> (m_isEnabled (slot_store w s) \<and> stale s w))
         (connected_slots w))) \<and>
     fst (snd (operator_call invoke a w)) =
       map (\<lambda>s. (s, a))
         (filter (\<lambda>s. m_isEnabled (slot_store w s) \<and> \<not> stale s w) (connected_slots w))"
    by (simp only: oc fP fQ) simp
qed

lemma sum_invoke_leaves_slots: "leaves_slots sum_invoke" "keeps_arguments sum_invoke"
  by (simp_all add: leaves_slots_def keeps_arguments_def sum_invoke_def split: callee.split)

theorem emission_reaches_enabled_counts_connected_witness:
  "leaves_slots sum_invoke \<and> keeps_arguments sum_invoke \<and>
   \<not> m_blocked sum_world \<and> \<not> m_emitGuard sum_world \<and> slots_exist sum_world \<and>
   connected_slots sum_world = [1, 2] \<and>
   m_isEnabled (slot_store sum_world 1) \<and> m_isEnabled (slot_store sum_world 2) \<and>
   \<not> stale 1 sum_world \<and> \<not> stale 2 sum_world \<and>
   fst (operator_call sum_invoke (3, 4) sum_world) = Inr 2 \<and>
   fst (snd (operator_call sum_invoke (3, 4) sum_world)) = [(1, (3, 4)), (2, (3, 4))] \<and>
   user sum_world = 0 \<and>
   user (snd (snd (operator_call sum_invoke (3, 4) sum_world))) = 7"
proof -
  have f: "\<not> m_blocked sum_world" "\<not> m_emitGuard sum_world"
    "connected_slots sum_world = [1, 2]" "\<not> stale 1 sum_world" "\<not> stale 2 sum_world"
    "m_isEnabled (slot_store sum_world 1)" "m_isEnabled (slot_store sum_world 2)"
    "user sum_world = 0"
    by (simp_all add: sum_world_def connect_function_def addSlot_def empty_world_def
        new_slot_def connected_slots_def isConnected_def stale_def)
  have x: "slots_exist sum_world"
    by (simp add: slots_exist_def sum_world_def connect_function_def addSlot_def
        empty_world_def)
  have u: "user (snd (snd (operator_call sum_invoke (3, 4) sum_world))) = 7"
    by code_simp
  from emission_reaches_enabled_counts_connected
    [where invoke = sum_invoke and w = sum_world and a = "(3, 4)"]
    sum_invoke_leaves_slots f x u
  show ?thesis by simp
qed

text \<open>
  C1 as stated fails twice. With the second slot of \<open>Sum\<close> disabled, \<open>Sum(3, 4)\<close>
  reaches the first slot only and still returns 2. And on a signal of one string whose
  two slots take it by value, the emission of \<open>hello\<close> hands the second slot the
  string the first has moved out of.
\<close>

theorem emission_counts_disabled_and_hands_on_moved_arguments:
  "connected_slots sum_world_disabled = [1, 2] \<and>
   m_isEnabled (slot_store sum_world_disabled 1) \<and>
   \<not> m_isEnabled (slot_store sum_world_disabled 2) \<and>
   fst (snd (operator_call sum_invoke (3, 4) sum_world_disabled)) = [(1, (3, 4))] \<and>
   fst (operator_call sum_invoke (3, 4) sum_world_disabled) = Inr 2 \<and>
   connected_slots string_world = [1, 2] \<and>
   fst (operator_call moving_invoke ''hello'' string_world) = Inr 2 \<and>
   fst (snd (operator_call moving_invoke ''hello'' string_world)) =
     [(1, ''hello''), (2, [])] \<and>
   user (snd (snd (operator_call moving_invoke ''hello'' string_world))) = [''hello'', []]"
  by code_simp

end
